theory Spec2Isabelle
  imports Complex_Main "HOL-Library.Multiset"
begin

section \<open>Prize distribution: the data model\<close>

text \<open>
  The embedding follows \<^verbatim>\<open>src/prize_calculator.py\<close>: the dataclasses \<^verbatim>\<open>Prize\<close> and
  \<^verbatim>\<open>Participant\<close>, and the methods \<^verbatim>\<open>calculate_distribution\<close> and
  \<^verbatim>\<open>calculate_integer_distribution\<close> of \<^verbatim>\<open>PrizeDistributionApp\<close>, together with the
  special-prize branch of \<^verbatim>\<open>update_current_state\<close>.

  Numbers. Python's \<^verbatim>\<open>int\<close> and \<^verbatim>\<open>float\<close> values are modelled as exact rationals
  (\<^typ>\<open>rat\<close>), and Python's integers as \<^typ>\<open>int\<close>. The rounding error of binary
  floating point in \<^verbatim>\<open>damage / total_damage\<close> and \<^verbatim>\<open>quantity * ratio\<close> is therefore not
  part of the model; the concrete inputs evaluated below are chosen so that these
  operations are exact in binary floating point as well.

  The damage of a participant is either a number or the string \<^verbatim>\<open>'#'\<close>, which the input
  paths store verbatim; no other string is ever stored in that field. The quantity of a
  prize is a number; a prize entered with the quantity \<^verbatim>\<open>'#'\<close> is not modelled. The
  calls of the logger in the exception handlers are left out.
\<close>

datatype error = ZeroDivisionError | TypeError | IndexError

datatype damage = Num rat | Hash

record participant =
  pid :: int
  pname :: string
  damage :: damage
  enabled :: bool

record prize =
  prize_id :: int
  prize_name :: string
  quantity :: rat
  is_special :: bool
  top_winners :: int

type_synonym distribution = "(int \<times> string \<times> rat) list"

section \<open>Python primitives\<close>

text \<open>\<^verbatim>\<open>isinstance(d, str) and d.strip() == '#'\<close>\<close>

fun is_hash :: "damage \<Rightarrow> bool" where
  "is_hash Hash = True"
| "is_hash (Num r) = False"

text \<open>
  \<^verbatim>\<open>sum(...)\<close> starts from 0 and adds from the left; adding the string \<^verbatim>\<open>'#'\<close> to a
  number raises \<^verbatim>\<open>TypeError\<close>.
\<close>

fun py_sum_from :: "rat \<Rightarrow> damage list \<Rightarrow> error + rat" where
  "py_sum_from acc [] = Inr acc"
| "py_sum_from acc (Num r # ds) = py_sum_from (acc + r) ds"
| "py_sum_from acc (Hash # ds) = Inl TypeError"

definition py_sum :: "damage list \<Rightarrow> error + rat" where
  "py_sum ds = py_sum_from 0 ds"

text \<open>\<^verbatim>\<open>d / total\<close>: true division, which raises on a zero divisor and on a string.\<close>

fun py_div :: "damage \<Rightarrow> rat \<Rightarrow> error + rat" where
  "py_div Hash t = Inl TypeError"
| "py_div (Num r) t = (if t = 0 then Inl ZeroDivisionError else Inr (r / t))"

text \<open>
  Python 3's \<^verbatim>\<open>round(x)\<close> with one argument returns the nearest integer and resolves a
  tie (fractional part exactly one half) to the even neighbour.
\<close>

definition py_round :: "rat \<Rightarrow> int" where
  "py_round x =
     (let f = \<lfloor>x\<rfloor>; d = x - of_int f
      in if d < 1 / 2 then f
         else if 1 / 2 < d then f + 1
         else if even f then f else f + 1)"

text \<open>\<^verbatim>\<open>int(x)\<close> truncates toward zero.\<close>

definition py_int :: "rat \<Rightarrow> int" where
  "py_int x = (if 0 \<le> x then \<lfloor>x\<rfloor> else \<lceil>x\<rceil>)"

text \<open>
  The slice \<^verbatim>\<open>xs[:n]\<close>: the first \<open>n\<close> elements, and for a negative \<open>n\<close> all but the
  last \<open>-n\<close>.
\<close>

definition py_prefix :: "int \<Rightarrow> 'a list \<Rightarrow> 'a list" where
  "py_prefix n xs =
     (if 0 \<le> n then take (nat n) xs else take (nat (int (length xs) + n)) xs)"

text \<open>
  \<^verbatim>\<open>sorted(xs, key=k)\<close> is a stable sort, which \<^const>\<open>sort_key\<close> (insertion sort) is as
  well. \<^verbatim>\<open>sorted(xs, key=k, reverse=True)\<close> sorts by descending key and still keeps the
  original order among equal keys: it is the stable ascending sort by the negated key.
\<close>

definition sorted_desc :: "('a \<Rightarrow> rat) \<Rightarrow> 'a list \<Rightarrow> 'a list" where
  "sorted_desc k xs = sort_key (\<lambda>x. - k x) xs"

section \<open>Integer distribution\<close>

text \<open>
  A row of the local list \<^verbatim>\<open>shares\<close>: \<^verbatim>\<open>[participant, share, exact_share]\<close>. After the
  first rounding loop the middle component is an integer.
\<close>

type_synonym share = "participant \<times> int \<times> rat"

text \<open>
  The participants paired with their numeric damage. Sorting by damage compares the
  damages and the loop divides each of them: a participant whose damage is \<^verbatim>\<open>'#'\<close>
  raises \<^verbatim>\<open>TypeError\<close> in one or the other.
\<close>

fun numeric_damages :: "participant list \<Rightarrow> error + (participant \<times> rat) list" where
  "numeric_damages [] = Inr []"
| "numeric_damages (p # ps) =
     (case damage p of
        Hash \<Rightarrow> Inl TypeError
      | Num r \<Rightarrow> (case numeric_damages ps of
                    Inl e \<Rightarrow> Inl e
                  | Inr rest \<Rightarrow> Inr ((p, r) # rest)))"

text \<open>
  The first loop: \<^verbatim>\<open>exact_share = quantity * (participant.damage / total_damage)\<close> for the
  participants in descending order of damage.
\<close>

definition exact_shares :: "(participant \<times> rat) list \<Rightarrow> rat \<Rightarrow> rat \<Rightarrow> (participant \<times> rat) list" where
  "exact_shares pds total_damage q =
     map (\<lambda>(p, d). (p, q * (d / total_damage))) (sorted_desc snd pds)"

text \<open>The second loop: \<^verbatim>\<open>share[1] = round(share[1])\<close>.\<close>

definition rounded_shares :: "(participant \<times> rat) list \<Rightarrow> share list" where
  "rounded_shares es = map (\<lambda>(p, e). (p, py_round e, e)) es"

definition total_assigned :: "share list \<Rightarrow> int" where
  "total_assigned shares = sum_list (map (\<lambda>(p, s, e). s) shares)"

text \<open>
  The scan of a decrementing iteration. \<open>j\<close> is the index of \<^verbatim>\<open>enumerate\<close>;
  \<open>min_loss = None\<close> stands for \<^verbatim>\<open>float('inf')\<close>; the result is \<^verbatim>\<open>min_idx\<close>.
\<close>

fun scan_loss :: "share list \<Rightarrow> nat \<Rightarrow> rat option \<Rightarrow> int \<Rightarrow> int" where
  "scan_loss [] j min_loss min_idx = min_idx"
| "scan_loss ((p, s, e) # rest) j min_loss min_idx =
     (if 0 < s then
        (let loss = \<bar>of_int (s - 1) - e\<bar>
         in if (case min_loss of None \<Rightarrow> True | Some m \<Rightarrow> loss < m)
            then scan_loss rest (Suc j) (Some loss) (int j)
            else scan_loss rest (Suc j) min_loss min_idx)
      else scan_loss rest (Suc j) min_loss min_idx)"

text \<open>The scan of an incrementing iteration: every row is a candidate.\<close>

fun scan_gain :: "share list \<Rightarrow> nat \<Rightarrow> rat option \<Rightarrow> int \<Rightarrow> int" where
  "scan_gain [] j min_gain min_idx = min_idx"
| "scan_gain ((p, s, e) # rest) j min_gain min_idx =
     (let gain = \<bar>of_int (s + 1) - e\<bar>
      in if (case min_gain of None \<Rightarrow> True | Some m \<Rightarrow> gain < m)
         then scan_gain rest (Suc j) (Some gain) (int j)
         else scan_gain rest (Suc j) min_gain min_idx)"

text \<open>\<^verbatim>\<open>shares[min_idx][1] += k\<close>\<close>

definition add_share :: "int \<Rightarrow> share \<Rightarrow> share" where
  "add_share k sh = (case sh of (p, s, e) \<Rightarrow> (p, s + k, e))"

definition decrement_step :: "share list \<Rightarrow> share list" where
  "decrement_step shares =
     (let min_idx = scan_loss shares 0 None (- 1)
      in if 0 \<le> min_idx
         then shares[nat min_idx := add_share (- 1) (shares ! nat min_idx)]
         else shares)"

definition increment_step :: "share list \<Rightarrow> share list" where
  "increment_step shares =
     (let min_idx = scan_gain shares 0 None (- 1)
      in if 0 \<le> min_idx
         then shares[nat min_idx := add_share 1 (shares ! nat min_idx)]
         else shares)"

text \<open>
  \<^verbatim>\<open>diff = total_assigned - total_to_distribute\<close> and the two correction phases, each of
  \<^verbatim>\<open>abs(diff)\<close> iterations.
\<close>

definition correct_shares :: "int \<Rightarrow> share list \<Rightarrow> share list" where
  "correct_shares total_to_distribute shares =
     (let diff = total_assigned shares - total_to_distribute
      in if diff \<noteq> 0 then
           (if 0 < diff then (decrement_step ^^ nat \<bar>diff\<bar>) shares
            else (increment_step ^^ nat \<bar>diff\<bar>) shares)
         else shares)"

text \<open>The body of the \<^verbatim>\<open>try\<close> block; \<open>Inl\<close> is a raised exception.\<close>

definition calculate_integer_distribution_body ::
  "participant list \<Rightarrow> rat \<Rightarrow> rat \<Rightarrow> error + (int \<times> string \<times> int) list" where
  "calculate_integer_distribution_body participants total_damage q =
     (if participants = [] \<or> total_damage = 0 then Inr []
      else
        (let total_to_distribute = py_int q
         in case numeric_damages participants of
              Inl e \<Rightarrow> Inl e
            | Inr pds \<Rightarrow>
                (let shares = rounded_shares (exact_shares pds total_damage q);
                     shares' = correct_shares total_to_distribute shares;
                     result = map (\<lambda>(p, qty, e). (pid p, pname p, qty)) shares'
                 in Inr (sort_key fst result))))"

text \<open>\<^verbatim>\<open>except Exception: ... return []\<close>\<close>

definition calculate_integer_distribution ::
  "participant list \<Rightarrow> rat \<Rightarrow> rat \<Rightarrow> (int \<times> string \<times> int) list" where
  "calculate_integer_distribution participants total_damage q =
     (case calculate_integer_distribution_body participants total_damage q of
        Inl e \<Rightarrow> []
      | Inr r \<Rightarrow> r)"

section \<open>Distribution of one prize\<close>

definition active_participants :: "participant list \<Rightarrow> participant list" where
  "active_participants ps = filter (\<lambda>p. enabled p \<and> \<not> is_hash (damage p)) ps"

text \<open>The winners of a special prize: \<^verbatim>\<open>sorted(active, key=lambda p: p.id)[:top_winners]\<close>.\<close>

definition top_participants :: "prize \<Rightarrow> participant list \<Rightarrow> participant list" where
  "top_participants pr active = py_prefix (top_winners pr) (sort_key pid active)"

text \<open>
  The real-valued loop:
  \<^verbatim>\<open>ratio = p.damage / total; qty = prize.quantity * ratio; append((p.id, p.name, qty))\<close>.
\<close>

fun real_distribution :: "participant list \<Rightarrow> rat \<Rightarrow> rat \<Rightarrow> error + distribution" where
  "real_distribution [] total_damage q = Inr []"
| "real_distribution (p # ps) total_damage q =
     (case py_div (damage p) total_damage of
        Inl e \<Rightarrow> Inl e
      | Inr ratio \<Rightarrow>
          (case real_distribution ps total_damage q of
             Inl e \<Rightarrow> Inl e
           | Inr rest \<Rightarrow> Inr ((pid p, pname p, q * ratio) # rest)))"

text \<open>The integer quantities of the integer mode, as numbers of the result type.\<close>

definition as_distribution :: "(int \<times> string \<times> int) list \<Rightarrow> distribution" where
  "as_distribution r = map (\<lambda>(i, n, qty). (i, n, of_int qty)) r"

text \<open>
  The body of the \<^verbatim>\<open>try\<close> block of \<^verbatim>\<open>calculate_distribution\<close>. The arguments
  \<open>participants\<close> and \<open>integer_only\<close> are \<^verbatim>\<open>self.participants\<close> and
  \<^verbatim>\<open>self.integer_only.get()\<close>.
\<close>

definition calculate_distribution_body ::
  "participant list \<Rightarrow> bool \<Rightarrow> prize \<Rightarrow> error + distribution" where
  "calculate_distribution_body participants integer_only pr =
     (let active = active_participants participants
      in if active = [] then Inr []
         else case py_sum (map damage active) of
           Inl e \<Rightarrow> Inl e
         | Inr total_damage \<Rightarrow>
             if total_damage = 0 then Inr []
             else if is_special pr then
               (let tops = top_participants pr active
                in case py_sum (map damage tops) of
                     Inl e \<Rightarrow> Inl e
                   | Inr winner_total_damage \<Rightarrow>
                       if integer_only
                       then Inr (as_distribution
                              (calculate_integer_distribution tops winner_total_damage (quantity pr)))
                       else real_distribution tops winner_total_damage (quantity pr))
             else
               if integer_only
               then Inr (as_distribution
                      (calculate_integer_distribution active total_damage (quantity pr)))
               else real_distribution (sort_key pid active) total_damage (quantity pr))"

definition calculate_distribution :: "participant list \<Rightarrow> bool \<Rightarrow> prize \<Rightarrow> distribution" where
  "calculate_distribution participants integer_only pr =
     (case calculate_distribution_body participants integer_only pr of
        Inl e \<Rightarrow> []
      | Inr r \<Rightarrow> r)"

section \<open>The recomputation in \<^verbatim>\<open>update_current_state\<close>\<close>

text \<open>
  The sibling path that recomputes the distributions when a saved state is updated. Its
  special-prize branch selects
  \<^verbatim>\<open>sorted(active_participants, key=lambda p: p.damage, reverse=True)[:prize.top_winners]\<close>.
\<close>

definition update_top_participants :: "prize \<Rightarrow> participant list \<Rightarrow> error + participant list" where
  "update_top_participants pr active =
     (case numeric_damages active of
        Inl e \<Rightarrow> Inl e
      | Inr pds \<Rightarrow> Inr (py_prefix (top_winners pr) (map fst (sorted_desc snd pds))))"

text \<open>
  The loop over the selected participants:
  \<^verbatim>\<open>quantity = (prize.quantity * ratio) if not integer_only else max(1, round(prize.quantity * ratio))\<close>.
\<close>

fun update_quantities :: "participant list \<Rightarrow> rat \<Rightarrow> rat \<Rightarrow> bool \<Rightarrow> error + (string \<times> rat) list" where
  "update_quantities [] total_damage q integer_only = Inr []"
| "update_quantities (p # ps) total_damage q integer_only =
     (case py_div (damage p) total_damage of
        Inl e \<Rightarrow> Inl e
      | Inr ratio \<Rightarrow>
          (let qty = (if \<not> integer_only then q * ratio
                      else of_int (max 1 (py_round (q * ratio))))
           in case update_quantities ps total_damage q integer_only of
                Inl e \<Rightarrow> Inl e
              | Inr rest \<Rightarrow> Inr ((pname p, qty) # rest)))"

text \<open>
  The entry \<^verbatim>\<open>all_distributions[prize.id]\<close> for one prize; \<open>None\<close> when the guard
  \<^verbatim>\<open>active_participants and total_damage > 0\<close> fails and no entry is written.
\<close>

definition update_distributions ::
  "participant list \<Rightarrow> bool \<Rightarrow> prize \<Rightarrow> error + (string \<times> rat) list option" where
  "update_distributions participants integer_only pr =
     (let active = active_participants participants
      in case py_sum (map damage active) of
           Inl e \<Rightarrow> Inl e
         | Inr total_damage \<Rightarrow>
             if active \<noteq> [] \<and> 0 < total_damage then
               (if is_special pr then
                  (case update_top_participants pr active of
                     Inl e \<Rightarrow> Inl e
                   | Inr tops \<Rightarrow>
                       (case py_sum (map damage tops) of
                          Inl e \<Rightarrow> Inl e
                        | Inr winner_total_damage \<Rightarrow>
                            map_sum id Some
                              (update_quantities tops winner_total_damage (quantity pr) integer_only)))
                else map_sum id Some
                       (update_quantities active total_damage (quantity pr) integer_only))
             else Inr None)"

section \<open>The two methods over a store of objects\<close>

text \<open>
  Python passes objects by reference. A \<^verbatim>\<open>Participant\<close>, a \<^verbatim>\<open>Prize\<close>, the list
  \<^verbatim>\<open>self.participants\<close> and every row \<^verbatim>\<open>[participant, share, exact_share]\<close> of
  \<^verbatim>\<open>shares\<close> are mutable objects, and a row holds a reference to its participant, not a
  copy. This section embeds the same two methods over an explicit store, so that what
  they write is part of the model.

  The store is a list of objects and an address is an index into it; a new object is
  appended. A program takes the store and returns a value or a raised exception,
  together with the store it leaves. The lists bound to the local names
  \<^verbatim>\<open>active_participants\<close>, \<^verbatim>\<open>top_participants\<close>, \<^verbatim>\<open>shares\<close>, \<^verbatim>\<open>result\<close> and
  \<^verbatim>\<open>distribution_data\<close> are created by the call and reachable through that one name
  only: they are values of the program, lists of references. The rows are objects of the
  store, because the loop variable \<^verbatim>\<open>share\<close> and \<^verbatim>\<open>shares[min_idx]\<close> both refer to
  them.
\<close>

type_synonym addr = nat

datatype cell = Ref addr | Flt rat | Intg int

datatype obj =
    ParticipantObj participant
  | PrizeObj prize
  | ListObj "addr list"
  | RowObj "cell list"

type_synonym heap = "obj list"

type_synonym 'a prog = "heap \<Rightarrow> (error + 'a) \<times> heap"

text \<open>Returning, raising, sequencing, and \<^verbatim>\<open>try: ... except Exception: return d\<close>.\<close>

definition ret :: "'a \<Rightarrow> 'a prog" where
  "ret x h = (Inr x, h)"

definition raise :: "error \<Rightarrow> 'a prog" where
  "raise e h = (Inl e, h)"

definition bind :: "'a prog \<Rightarrow> ('a \<Rightarrow> 'b prog) \<Rightarrow> 'b prog" where
  "bind m f h = (case m h of (Inl e, h') \<Rightarrow> (Inl e, h') | (Inr x, h') \<Rightarrow> f x h')"

text \<open>A computation that does not touch the store.\<close>

definition lift :: "error + 'a \<Rightarrow> 'a prog" where
  "lift r h = (r, h)"

definition try_except :: "'a prog \<Rightarrow> 'a \<Rightarrow> 'a prog" where
  "try_except m d h = (case m h of (Inl e, h') \<Rightarrow> (Inr d, h') | (Inr x, h') \<Rightarrow> (Inr x, h'))"

text \<open>
  Creating an object, reading one, and overwriting one. An address outside the store or
  an object of another class is an error (it cannot arise from a well-formed store).
\<close>

definition alloc :: "obj \<Rightarrow> addr prog" where
  "alloc ob h = (Inr (length h), h @ [ob])"

definition lookup :: "addr \<Rightarrow> obj prog" where
  "lookup a h = (if a < length h then (Inr (h ! a), h) else (Inl TypeError, h))"

definition store :: "addr \<Rightarrow> obj \<Rightarrow> unit prog" where
  "store a ob h = (if a < length h then (Inr (), h[a := ob]) else (Inl TypeError, h))"

definition get_participant :: "addr \<Rightarrow> participant prog" where
  "get_participant a =
     bind (lookup a) (\<lambda>ob. case ob of ParticipantObj p \<Rightarrow> ret p | _ \<Rightarrow> raise TypeError)"

definition get_prize :: "addr \<Rightarrow> prize prog" where
  "get_prize a = bind (lookup a) (\<lambda>ob. case ob of PrizeObj pr \<Rightarrow> ret pr | _ \<Rightarrow> raise TypeError)"

definition get_list :: "addr \<Rightarrow> addr list prog" where
  "get_list a = bind (lookup a) (\<lambda>ob. case ob of ListObj refs \<Rightarrow> ret refs | _ \<Rightarrow> raise TypeError)"

definition get_row :: "addr \<Rightarrow> cell list prog" where
  "get_row a = bind (lookup a) (\<lambda>ob. case ob of RowObj cs \<Rightarrow> ret cs | _ \<Rightarrow> raise TypeError)"

text \<open>\<^verbatim>\<open>row[i]\<close> and \<^verbatim>\<open>row[i] = c\<close>\<close>

definition row_get :: "addr \<Rightarrow> nat \<Rightarrow> cell prog" where
  "row_get a i = bind (get_row a) (\<lambda>cs. if i < length cs then ret (cs ! i) else raise IndexError)"

definition row_set :: "addr \<Rightarrow> nat \<Rightarrow> cell \<Rightarrow> unit prog" where
  "row_set a i c =
     bind (get_row a) (\<lambda>cs. if i < length cs then store a (RowObj (cs[i := c])) else raise IndexError)"

text \<open>A cell read as a number, and \<^verbatim>\<open>cell + k\<close> for an integer \<open>k\<close>.\<close>

fun cell_num :: "cell \<Rightarrow> rat prog" where
  "cell_num (Flt r) = ret r"
| "cell_num (Intg i) = ret (of_int i)"
| "cell_num (Ref a) = raise TypeError"

fun cell_add :: "cell \<Rightarrow> int \<Rightarrow> cell prog" where
  "cell_add (Flt r) k = ret (Flt (r + of_int k))"
| "cell_add (Intg i) k = ret (Intg (i + k))"
| "cell_add (Ref a) k = raise TypeError"

text \<open>
  A loop that collects one value for each element of a list, a loop that threads a local
  state through the elements, and \<^verbatim>\<open>for i in range(n)\<close>.
\<close>

fun mapM :: "('a \<Rightarrow> 'b prog) \<Rightarrow> 'a list \<Rightarrow> 'b list prog" where
  "mapM f [] h = (Inr [], h)"
| "mapM f (x # xs) h =
     (case f x h of
        (Inl e, h1) \<Rightarrow> (Inl e, h1)
      | (Inr y, h1) \<Rightarrow>
          (case mapM f xs h1 of
             (Inl e, h2) \<Rightarrow> (Inl e, h2)
           | (Inr ys, h2) \<Rightarrow> (Inr (y # ys), h2)))"

fun foldM :: "('s \<Rightarrow> 'a \<Rightarrow> 's prog) \<Rightarrow> 's \<Rightarrow> 'a list \<Rightarrow> 's prog" where
  "foldM f s [] h = (Inr s, h)"
| "foldM f s (x # xs) h =
     (case f s x h of
        (Inl e, h1) \<Rightarrow> (Inl e, h1)
      | (Inr s', h1) \<Rightarrow> foldM f s' xs h1)"

fun repeatM :: "nat \<Rightarrow> unit prog \<Rightarrow> unit prog" where
  "repeatM 0 m h = (Inr (), h)"
| "repeatM (Suc n) m h =
     (case m h of
        (Inl e, h1) \<Rightarrow> (Inl e, h1)
      | (Inr u, h1) \<Rightarrow> repeatM n m h1)"

subsection \<open>\<^verbatim>\<open>calculate_integer_distribution\<close> over the store\<close>

text \<open>\<^verbatim>\<open>p.damage\<close>\<close>
definition get_damage :: "addr \<Rightarrow> damage prog" where
  "get_damage a = bind (get_participant a) (\<lambda>p. ret (damage p))"

text \<open>\<^verbatim>\<open>sum(p.damage for p in refs)\<close>\<close>
definition sum_damage_st :: "addr list \<Rightarrow> rat prog" where
  "sum_damage_st refs = bind (mapM get_damage refs) (\<lambda>ds. lift (py_sum ds))"

text \<open>\<^verbatim>\<open>sorted(refs, key=lambda p: p.id)\<close>: a new list.\<close>
definition sorted_by_id_st :: "addr list \<Rightarrow> addr list prog" where
  "sorted_by_id_st refs =
     bind (mapM (\<lambda>a. bind (get_participant a) (\<lambda>p. ret (a, pid p))) refs)
       (\<lambda>keyed. ret (map fst (sort_key snd keyed)))"

text \<open>\<^verbatim>\<open>sorted(refs, key=lambda p: p.damage, reverse=True)\<close>: a new list.\<close>
definition sorted_by_damage_st :: "addr list \<Rightarrow> addr list prog" where
  "sorted_by_damage_st refs =
     bind (mapM (\<lambda>a. bind (get_damage a)
                   (\<lambda>d. case d of Num r \<Rightarrow> ret (a, r) | Hash \<Rightarrow> raise TypeError)) refs)
       (\<lambda>keyed. ret (map fst (sorted_desc snd keyed)))"

text \<open>
  The body of the first loop: a new row \<^verbatim>\<open>[participant, exact_share, exact_share]\<close>,
  whose first cell is the reference to the participant.
\<close>
definition new_share_st :: "rat \<Rightarrow> rat \<Rightarrow> addr \<Rightarrow> addr prog" where
  "new_share_st total_damage q a =
     bind (get_damage a) (\<lambda>d.
     bind (lift (py_div d total_damage)) (\<lambda>ratio.
       (let exact_share = q * ratio
        in alloc (RowObj [Ref a, Flt exact_share, Flt exact_share]))))"

text \<open>
  The body of the second loop:
  \<^verbatim>\<open>rounded = round(share[1]); share[1] = rounded; total_assigned += rounded\<close>.
\<close>
definition round_share_st :: "int \<Rightarrow> addr \<Rightarrow> int prog" where
  "round_share_st assigned share =
     bind (row_get share 1) (\<lambda>c.
     bind (cell_num c) (\<lambda>x.
       (let rounded = py_round x
        in bind (row_set share 1 (Intg rounded)) (\<lambda>u. ret (assigned + rounded)))))"

text \<open>
  The bodies of the two scans; the local state is \<open>(j, min_loss, min_idx)\<close> with \<open>j\<close> the
  index of \<^verbatim>\<open>enumerate\<close>.
\<close>

definition scan_loss_body :: "nat \<times> rat option \<times> int \<Rightarrow> addr \<Rightarrow> (nat \<times> rat option \<times> int) prog" where
  "scan_loss_body st share =
     (case st of (j, min_loss, min_idx) \<Rightarrow>
        bind (row_get share 1) (\<lambda>c1.
        bind (cell_num c1) (\<lambda>s.
          if 0 < s then
            bind (row_get share 2) (\<lambda>c2.
            bind (cell_num c2) (\<lambda>e.
              (let loss = \<bar>(s - 1) - e\<bar>
               in if (case min_loss of None \<Rightarrow> True | Some m \<Rightarrow> loss < m)
                  then ret (Suc j, Some loss, int j)
                  else ret (Suc j, min_loss, min_idx))))
          else ret (Suc j, min_loss, min_idx))))"

definition scan_gain_body :: "nat \<times> rat option \<times> int \<Rightarrow> addr \<Rightarrow> (nat \<times> rat option \<times> int) prog" where
  "scan_gain_body st share =
     (case st of (j, min_gain, min_idx) \<Rightarrow>
        bind (row_get share 1) (\<lambda>c1.
        bind (cell_num c1) (\<lambda>s.
        bind (row_get share 2) (\<lambda>c2.
        bind (cell_num c2) (\<lambda>e.
          (let gain = \<bar>(s + 1) - e\<bar>
           in if (case min_gain of None \<Rightarrow> True | Some m \<Rightarrow> gain < m)
              then ret (Suc j, Some gain, int j)
              else ret (Suc j, min_gain, min_idx)))))))"

text \<open>\<^verbatim>\<open>if min_idx >= 0: shares[min_idx][1] += k\<close>\<close>
definition bump_share_st :: "addr list \<Rightarrow> int \<Rightarrow> int \<Rightarrow> unit prog" where
  "bump_share_st shares min_idx k =
     (if 0 \<le> min_idx then
        (if nat min_idx < length shares then
           (let share = shares ! nat min_idx
            in bind (row_get share 1) (\<lambda>c.
               bind (cell_add c k) (\<lambda>c'. row_set share 1 c')))
         else raise IndexError)
      else ret ())"

text \<open>One iteration of each correction loop.\<close>

definition decrement_step_st :: "addr list \<Rightarrow> unit prog" where
  "decrement_step_st shares =
     bind (foldM scan_loss_body (0, None, - 1) shares) (\<lambda>st.
       case st of (j, min_loss, min_idx) \<Rightarrow> bump_share_st shares min_idx (- 1))"

definition increment_step_st :: "addr list \<Rightarrow> unit prog" where
  "increment_step_st shares =
     bind (foldM scan_gain_body (0, None, - 1) shares) (\<lambda>st.
       case st of (j, min_gain, min_idx) \<Rightarrow> bump_share_st shares min_idx 1)"

text \<open>\<^verbatim>\<open>(p.id, p.name, qty) for p, qty, _ in shares\<close>\<close>
definition result_row_st :: "addr \<Rightarrow> (int \<times> string \<times> rat) prog" where
  "result_row_st share =
     bind (get_row share) (\<lambda>cs.
       case cs of
         [Ref a, qty, e] \<Rightarrow>
           bind (get_participant a) (\<lambda>p.
           bind (cell_num qty) (\<lambda>x. ret (pid p, pname p, x)))
       | _ \<Rightarrow> raise TypeError)"

definition calculate_integer_distribution_st :: "addr list \<Rightarrow> rat \<Rightarrow> rat \<Rightarrow> distribution prog" where
  "calculate_integer_distribution_st participants total_damage q =
     try_except
       (if participants = [] \<or> total_damage = 0 then ret []
        else
          (let total_to_distribute = py_int q
           in bind (sorted_by_damage_st participants) (\<lambda>ordered.
              bind (mapM (new_share_st total_damage q) ordered) (\<lambda>shares.
              bind (foldM round_share_st 0 shares) (\<lambda>assigned.
                (let diff = assigned - total_to_distribute
                 in bind (if diff \<noteq> 0 then
                            (if 0 < diff then repeatM (nat \<bar>diff\<bar>) (decrement_step_st shares)
                             else repeatM (nat \<bar>diff\<bar>) (increment_step_st shares))
                          else ret ()) (\<lambda>u.
                    bind (mapM result_row_st shares) (\<lambda>result.
                      ret (sort_key fst result)))))))))
       []"

subsection \<open>\<^verbatim>\<open>calculate_distribution\<close> over the store\<close>

text \<open>
  The list comprehension that builds \<^verbatim>\<open>active_participants\<close>, and the body of the
  real-valued loop.
\<close>

definition is_active_st :: "addr \<Rightarrow> bool prog" where
  "is_active_st a = bind (get_participant a) (\<lambda>p. ret (enabled p \<and> \<not> is_hash (damage p)))"

definition active_participants_st :: "addr list \<Rightarrow> addr list prog" where
  "active_participants_st refs =
     bind (mapM (\<lambda>a. bind (is_active_st a) (\<lambda>b. ret (a, b))) refs)
       (\<lambda>flagged. ret (map fst (filter snd flagged)))"

definition real_share_st :: "rat \<Rightarrow> rat \<Rightarrow> addr \<Rightarrow> (int \<times> string \<times> rat) prog" where
  "real_share_st total_damage q a =
     bind (get_participant a) (\<lambda>p.
     bind (lift (py_div (damage p) total_damage)) (\<lambda>ratio.
       ret (pid p, pname p, q * ratio)))"

text \<open>
  \<open>self_participants\<close> is the address of the list \<^verbatim>\<open>self.participants\<close> and \<open>prize_ref\<close>
  the address of the prize.
\<close>

definition calculate_distribution_st :: "addr \<Rightarrow> bool \<Rightarrow> addr \<Rightarrow> distribution prog" where
  "calculate_distribution_st self_participants integer_only prize_ref =
     try_except
       (bind (get_list self_participants) (\<lambda>roster.
        bind (active_participants_st roster) (\<lambda>active.
          if active = [] then ret []
          else
            bind (sum_damage_st active) (\<lambda>total_damage.
              if total_damage = 0 then ret []
              else
                bind (get_prize prize_ref) (\<lambda>pr.
                  if is_special pr then
                    bind (sorted_by_id_st active) (\<lambda>by_id.
                      (let tops = py_prefix (top_winners pr) by_id
                       in bind (sum_damage_st tops) (\<lambda>winner_total_damage.
                            if integer_only
                            then calculate_integer_distribution_st tops winner_total_damage (quantity pr)
                            else mapM (real_share_st winner_total_damage (quantity pr)) tops)))
                  else
                    if integer_only
                    then calculate_integer_distribution_st active total_damage (quantity pr)
                    else bind (sorted_by_id_st active) (\<lambda>by_id.
                           mapM (real_share_st total_damage (quantity pr)) by_id))))))
       []"

section \<open>Vocabulary of the statements\<close>

text \<open>The components of a row, and the deviations the two scans compare.\<close>

definition share_qty :: "share \<Rightarrow> int" where "share_qty sh = fst (snd sh)"
definition share_exact :: "share \<Rightarrow> rat" where "share_exact sh = snd (snd sh)"
definition loss_of :: "share \<Rightarrow> rat" where "loss_of sh = \<bar>of_int (share_qty sh - 1) - share_exact sh\<bar>"
definition gain_of :: "share \<Rightarrow> rat" where "gain_of sh = \<bar>of_int (share_qty sh + 1) - share_exact sh\<bar>"

text \<open>
  \<open>i\<close> is the first index, among the candidates \<open>c\<close>, at which \<open>f\<close> is minimal.
\<close>

definition first_argmin :: "('a \<Rightarrow> bool) \<Rightarrow> ('a \<Rightarrow> rat) \<Rightarrow> 'a list \<Rightarrow> nat \<Rightarrow> bool" where
  "first_argmin c f xs i \<longleftrightarrow>
     i < length xs \<and> c (xs ! i) \<and>
     (\<forall>j<length xs. c (xs ! j) \<longrightarrow> f (xs ! i) \<le> f (xs ! j)) \<and>
     (\<forall>j<i. c (xs ! j) \<longrightarrow> f (xs ! i) < f (xs ! j))"

definition nonneg_shares :: "share list \<Rightarrow> bool" where
  "nonneg_shares shares = list_all (\<lambda>sh. 0 \<le> share_qty sh) shares"

text \<open>
  The weight of a participant is its numeric damage. The value chosen for \<^verbatim>\<open>'#'\<close> is
  never used: every participant that reaches a computation has passed the filter of
  \<^const>\<open>active_participants\<close>.
\<close>

definition weight :: "participant \<Rightarrow> rat" where
  "weight p = (case damage p of Num r \<Rightarrow> r | Hash \<Rightarrow> 0)"

definition total_weight :: "participant list \<Rightarrow> rat" where
  "total_weight ps = sum_list (map weight ps)"

definition nonneg_weights :: "participant list \<Rightarrow> bool" where
  "nonneg_weights ps = list_all (\<lambda>p. 0 \<le> weight p) ps"

text \<open>
  The eligible set after the special-prize restriction: the participants a prize is
  distributed among.
\<close>

definition eligible_set :: "prize \<Rightarrow> participant list \<Rightarrow> participant list" where
  "eligible_set pr ps =
     (if is_special pr then top_participants pr (active_participants ps)
      else active_participants ps)"

definition allocated_total :: "distribution \<Rightarrow> rat" where
  "allocated_total r = sum_list (map (\<lambda>(i, n, qty). qty) r)"

text \<open>
  Rounding to the nearest integer with ties going to the higher integer, as the
  specification words the initial rounding.
\<close>

definition round_half_up :: "rat \<Rightarrow> int" where
  "round_half_up x = \<lfloor>x + 1 / 2\<rfloor>"

text \<open>The result tuple of a row, and the rows after the correction.\<close>

definition row :: "share \<Rightarrow> int \<times> string \<times> int" where
  "row sh = (pid (fst sh), pname (fst sh), share_qty sh)"

definition integer_shares :: "participant list \<Rightarrow> rat \<Rightarrow> rat \<Rightarrow> share list" where
  "integer_shares ps t q =
     correct_shares (py_int q) (rounded_shares (exact_shares (map (\<lambda>p. (p, weight p)) ps) t q))"

text \<open>No participant of the list has the damage \<^verbatim>\<open>'#'\<close>.\<close>

definition numeric :: "participant list \<Rightarrow> bool" where
  "numeric ps = list_all (\<lambda>p. \<not> is_hash (damage p)) ps"

text \<open>Both scans are instances of one loop over candidates \<open>c\<close> with deviation \<open>f\<close>.\<close>

fun scan_min :: "('a \<Rightarrow> bool) \<Rightarrow> ('a \<Rightarrow> rat) \<Rightarrow> 'a list \<Rightarrow> nat \<Rightarrow> rat option \<Rightarrow> int \<Rightarrow> int" where
  "scan_min c f [] j m i = i"
| "scan_min c f (x # xs) j m i =
     (if c x \<and> (case m of None \<Rightarrow> True | Some v \<Rightarrow> f x < v)
      then scan_min c f xs (Suc j) (Some (f x)) (int j)
      else scan_min c f xs (Suc j) m i)"

section \<open>Concrete inputs\<close>

text \<open>
  \<^verbatim>\<open>Participant(id, name, damage)\<close> with the default \<^verbatim>\<open>enabled=True\<close>, and
  \<^verbatim>\<open>Prize(1, 'Gold', quantity, is_special, top_winners)\<close>.
\<close>

definition mk_participant :: "int \<Rightarrow> string \<Rightarrow> rat \<Rightarrow> participant" where
  "mk_participant i n d = \<lparr>pid = i, pname = n, damage = Num d, enabled = True\<rparr>"

definition mk_prize :: "rat \<Rightarrow> bool \<Rightarrow> int \<Rightarrow> prize" where
  "mk_prize q s n = \<lparr>prize_id = 1, prize_name = ''Gold'', quantity = q, is_special = s, top_winners = n\<rparr>"

definition three_equal :: "participant list" where
  "three_equal = [mk_participant 1 ''Ann'' 1, mk_participant 2 ''Bob'' 1, mk_participant 3 ''Cid'' 1]"

definition two_equal :: "participant list" where
  "two_equal = [mk_participant 1 ''Ann'' 1, mk_participant 2 ''Bob'' 1]"

definition one_only :: "participant list" where
  "one_only = [mk_participant 1 ''Ann'' 1]"

definition zero_first :: "participant list" where
  "zero_first = [mk_participant 1 ''Ann'' 0, mk_participant 2 ''Bob'' 5]"

definition zero_only :: "participant list" where
  "zero_only = [mk_participant 1 ''Ann'' 0]"

definition light_first :: "participant list" where
  "light_first = [mk_participant 1 ''Ann'' 1, mk_participant 2 ''Bob'' 5]"

definition five_ranked :: "participant list" where
  "five_ranked = [mk_participant 1 ''Ann'' 1, mk_participant 2 ''Bob'' 3, mk_participant 3 ''Cid'' 8,
                  mk_participant 4 ''Dee'' 2, mk_participant 5 ''Eve'' 4]"


text \<open>Two rows that together hold one unit more than the quantity 5.\<close>

definition over_assigned :: "share list" where
  "over_assigned = [(mk_participant 1 ''Ann'' 1, 3, 5 / 2), (mk_participant 2 ''Bob'' 1, 3, 5 / 2)]"

text \<open>
  A store holding \<^verbatim>\<open>self.participants\<close> at address 0, a prize at address 1 and the
  participant objects from address 2 on.
\<close>

definition store_of :: "participant list \<Rightarrow> prize \<Rightarrow> heap" where
  "store_of ps pr =
     ListObj [2 ..< 2 + length ps] # PrizeObj pr # map ParticipantObj ps"

text \<open>
  A program keeps the first \<open>n\<close> objects of the store as they are, whatever it returns or
  raises, and a value it returns satisfies \<open>Q\<close>.
\<close>

definition frames :: "nat \<Rightarrow> 'a prog \<Rightarrow> ('a \<Rightarrow> bool) \<Rightarrow> bool" where
  "frames n m Q \<longleftrightarrow>
     (\<forall>h. n \<le> length h \<longrightarrow>
        (case m h of (r, h') \<Rightarrow>
           n \<le> length h' \<and> take n h' = take n h \<and>
           (case r of Inl e \<Rightarrow> True | Inr x \<Rightarrow> Q x)))"

text \<open>The store holds the participant \<open>p\<close>, or the row with the cells \<open>cs\<close>, at an address.\<close>

definition holds_participant :: "heap \<Rightarrow> addr \<Rightarrow> participant \<Rightarrow> bool" where
  "holds_participant h a p \<longleftrightarrow> a < length h \<and> h ! a = ParticipantObj p"

definition holds_row :: "heap \<Rightarrow> addr \<Rightarrow> cell list \<Rightarrow> bool" where
  "holds_row h a cs \<longleftrightarrow> a < length h \<and> h ! a = RowObj cs"

text \<open>
  Every pair is an address together with the participant that the store holds there.
\<close>

definition referenced :: "heap \<Rightarrow> (addr \<times> participant) list \<Rightarrow> bool" where
  "referenced h aps = list_all (\<lambda>ap. holds_participant h (fst ap) (snd ap)) aps"

text \<open>
  The rows of the integer computation in the store: the row at \<open>as ! i\<close> holds a reference
  \<open>pas ! i\<close> to the participant of the value-level row \<open>ss ! i\<close>, its share and its exact
  share, and no two rows are the same object.
\<close>

definition row_cells :: "addr \<Rightarrow> share \<Rightarrow> cell list" where
  "row_cells pa sh = [Ref pa, Intg (share_qty sh), Flt (share_exact sh)]"

definition rows_inv :: "heap \<Rightarrow> addr list \<Rightarrow> addr list \<Rightarrow> share list \<Rightarrow> bool" where
  "rows_inv h as pas ss \<longleftrightarrow>
     distinct as \<and> length as = length ss \<and> length pas = length ss \<and>
     (\<forall>i<length ss. holds_row h (as ! i) (row_cells (pas ! i) (ss ! i)) \<and>
                     holds_participant h (pas ! i) (fst (ss ! i)))"

text \<open>The exact share of a referenced participant, and the row the first loop creates.\<close>

definition exact_of :: "rat \<Rightarrow> rat \<Rightarrow> addr \<times> participant \<Rightarrow> rat" where
  "exact_of t q ap = q * (weight (snd ap) / t)"

definition raw_row :: "rat \<Rightarrow> rat \<Rightarrow> addr \<times> participant \<Rightarrow> obj" where
  "raw_row t q ap = RowObj [Ref (fst ap), Flt (exact_of t q ap), Flt (exact_of t q ap)]"

text \<open>The result tuple read off a row.\<close>

definition result_of :: "share \<Rightarrow> int \<times> string \<times> rat" where
  "result_of sh = (pid (fst sh), pname (fst sh), of_int (share_qty sh))"

section \<open>Lemmas\<close>

subsection \<open>The scans\<close>

lemma scan_loss_scan_min:
  "scan_loss xs j m i = scan_min (\<lambda>sh. 0 < share_qty sh) loss_of xs j m i"
  by (induction xs j m i rule: scan_loss.induct)
     (simp_all add: share_qty_def share_exact_def loss_of_def Let_def split: option.splits)

lemma scan_gain_scan_min:
  "scan_gain xs j m i = scan_min (\<lambda>sh. True) gain_of xs j m i"
  by (induction xs j m i rule: scan_gain.induct)
     (simp_all add: share_qty_def share_exact_def gain_of_def Let_def split: option.splits)

lemma scan_min_cases:
  "(scan_min c f xs j m i = i \<and> (\<forall>x\<in>set xs. c x \<longrightarrow> (\<exists>v. m = Some v \<and> v \<le> f x))) \<or>
   (\<exists>k<length xs. scan_min c f xs j m i = int (j + k) \<and> c (xs ! k) \<and>
       (\<forall>v. m = Some v \<longrightarrow> f (xs ! k) < v) \<and>
       (\<forall>k'<k. c (xs ! k') \<longrightarrow> f (xs ! k) < f (xs ! k')) \<and>
       (\<forall>k'<length xs. c (xs ! k') \<longrightarrow> f (xs ! k) \<le> f (xs ! k')))"
proof (induction xs arbitrary: j m i)
  case Nil
  then show ?case by simp
next
  case (Cons x xs)
  let ?beat = "c x \<and> (case m of None \<Rightarrow> True | Some v \<Rightarrow> f x < v)"
  show ?case
  proof (cases ?beat)
    case True
    then have step: "scan_min c f (x # xs) j m i = scan_min c f xs (Suc j) (Some (f x)) (int j)"
      by simp
    from True have cx: "c x" and below: "\<forall>v. m = Some v \<longrightarrow> f x < v"
      by (auto split: option.splits)
    from Cons.IH [of "Suc j" "Some (f x)" "int j"]
    show ?thesis
    proof (elim disjE exE conjE)
      assume r: "scan_min c f xs (Suc j) (Some (f x)) (int j) = int j"
        and rest: "\<forall>y\<in>set xs. c y \<longrightarrow> (\<exists>v. Some (f x) = Some v \<and> v \<le> f y)"
      have "\<forall>k'<length (x # xs). c ((x # xs) ! k') \<longrightarrow> f x \<le> f ((x # xs) ! k')"
        using rest by (auto simp: nth_Cons split: nat.splits)
      then have "0 < length (x # xs) \<and> scan_min c f (x # xs) j m i = int (j + 0) \<and> c ((x # xs) ! 0) \<and>
        (\<forall>v. m = Some v \<longrightarrow> f ((x # xs) ! 0) < v) \<and>
        (\<forall>k'<0. c ((x # xs) ! k') \<longrightarrow> f ((x # xs) ! 0) < f ((x # xs) ! k')) \<and>
        (\<forall>k'<length (x # xs). c ((x # xs) ! k') \<longrightarrow> f ((x # xs) ! 0) \<le> f ((x # xs) ! k'))"
        using step r cx below by simp
      then show ?thesis by blast
    next
      fix k
      assume k: "k < length xs"
        and r: "scan_min c f xs (Suc j) (Some (f x)) (int j) = int (Suc j + k)"
        and ck: "c (xs ! k)"
        and lt: "\<forall>v. Some (f x) = Some v \<longrightarrow> f (xs ! k) < v"
        and before: "\<forall>k'<k. c (xs ! k') \<longrightarrow> f (xs ! k) < f (xs ! k')"
        and all: "\<forall>k'<length xs. c (xs ! k') \<longrightarrow> f (xs ! k) \<le> f (xs ! k')"
      from lt have ltx: "f (xs ! k) < f x" by simp
      have a: "\<forall>k'<Suc k. c ((x # xs) ! k') \<longrightarrow> f (xs ! k) < f ((x # xs) ! k')"
        using before ltx by (auto simp: nth_Cons split: nat.splits)
      have b: "\<forall>k'<length (x # xs). c ((x # xs) ! k') \<longrightarrow> f (xs ! k) \<le> f ((x # xs) ! k')"
        using all ltx by (auto simp: nth_Cons split: nat.splits)
      have d: "\<forall>v. m = Some v \<longrightarrow> f (xs ! k) < v"
        using below ltx by fastforce
      have "Suc k < length (x # xs) \<and> scan_min c f (x # xs) j m i = int (j + Suc k) \<and> c ((x # xs) ! Suc k) \<and>
        (\<forall>v. m = Some v \<longrightarrow> f ((x # xs) ! Suc k) < v) \<and>
        (\<forall>k'<Suc k. c ((x # xs) ! k') \<longrightarrow> f ((x # xs) ! Suc k) < f ((x # xs) ! k')) \<and>
        (\<forall>k'<length (x # xs). c ((x # xs) ! k') \<longrightarrow> f ((x # xs) ! Suc k) \<le> f ((x # xs) ! k'))"
        using step r k ck a b d by simp
      then show ?thesis by blast
    qed
  next
    case False
    then have step: "scan_min c f (x # xs) j m i = scan_min c f xs (Suc j) m i"
      by auto
    from False have hd: "c x \<longrightarrow> (\<exists>v. m = Some v \<and> v \<le> f x)"
      by (auto split: option.splits)
    from Cons.IH [of "Suc j" m i]
    show ?thesis
    proof (elim disjE exE conjE)
      assume r: "scan_min c f xs (Suc j) m i = i"
        and rest: "\<forall>y\<in>set xs. c y \<longrightarrow> (\<exists>v. m = Some v \<and> v \<le> f y)"
      then show ?thesis using step hd by auto
    next
      fix k
      assume k: "k < length xs"
        and r: "scan_min c f xs (Suc j) m i = int (Suc j + k)"
        and ck: "c (xs ! k)"
        and lt: "\<forall>v. m = Some v \<longrightarrow> f (xs ! k) < v"
        and before: "\<forall>k'<k. c (xs ! k') \<longrightarrow> f (xs ! k) < f (xs ! k')"
        and all: "\<forall>k'<length xs. c (xs ! k') \<longrightarrow> f (xs ! k) \<le> f (xs ! k')"
      have ltx: "c x \<longrightarrow> f (xs ! k) < f x"
        using hd lt by fastforce
      have a: "\<forall>k'<Suc k. c ((x # xs) ! k') \<longrightarrow> f (xs ! k) < f ((x # xs) ! k')"
        using before ltx by (auto simp: nth_Cons split: nat.splits)
      have b: "\<forall>k'<length (x # xs). c ((x # xs) ! k') \<longrightarrow> f (xs ! k) \<le> f ((x # xs) ! k')"
        using all ltx by (auto simp: nth_Cons split: nat.splits)
      have "Suc k < length (x # xs) \<and> scan_min c f (x # xs) j m i = int (j + Suc k) \<and> c ((x # xs) ! Suc k) \<and>
        (\<forall>v. m = Some v \<longrightarrow> f ((x # xs) ! Suc k) < v) \<and>
        (\<forall>k'<Suc k. c ((x # xs) ! k') \<longrightarrow> f ((x # xs) ! Suc k) < f ((x # xs) ! k')) \<and>
        (\<forall>k'<length (x # xs). c ((x # xs) ! k') \<longrightarrow> f ((x # xs) ! Suc k) \<le> f ((x # xs) ! k'))"
        using step r k ck a b lt by simp
      then show ?thesis by blast
    qed
  qed
qed

lemma scan_min_initial:
  "(scan_min c f xs 0 None (- 1) = - 1 \<and> (\<forall>x\<in>set xs. \<not> c x)) \<or>
   (\<exists>k. scan_min c f xs 0 None (- 1) = int k \<and> first_argmin c f xs k)"
  using scan_min_cases [of c f xs 0 None "- 1"]
  unfolding first_argmin_def by fastforce

subsection \<open>The correction steps\<close>

lemma decrement_step_cases:
  "(decrement_step shares = shares \<and> (\<forall>sh\<in>set shares. \<not> 0 < share_qty sh)) \<or>
   (\<exists>i. first_argmin (\<lambda>sh. 0 < share_qty sh) loss_of shares i \<and>
        decrement_step shares = shares[i := add_share (- 1) (shares ! i)])"
  using scan_min_initial [of "\<lambda>sh. 0 < share_qty sh" loss_of shares]
  by (auto simp: decrement_step_def scan_loss_scan_min)

lemma increment_step_cases:
  "(increment_step shares = shares \<and> shares = []) \<or>
   (\<exists>i. first_argmin (\<lambda>sh. True) gain_of shares i \<and>
        increment_step shares = shares[i := add_share 1 (shares ! i)])"
proof (cases shares)
  case Nil
  then show ?thesis by (simp add: increment_step_def)
next
  case (Cons sh rest)
  then have "sh \<in> set shares" by simp
  then have "\<not> (\<forall>x\<in>set shares. \<not> True)" by blast
  with scan_min_initial [of "\<lambda>sh. True" gain_of shares]
  obtain k where "scan_min (\<lambda>sh. True) gain_of shares 0 None (- 1) = int k"
    and "first_argmin (\<lambda>sh. True) gain_of shares k" by blast
  then show ?thesis
    by (auto simp: increment_step_def scan_gain_scan_min)
qed

lemma total_assigned_conv: "total_assigned shares = sum_list (map share_qty shares)"
  unfolding total_assigned_def
  by (rule arg_cong [where f = sum_list]) (auto simp: share_qty_def)

lemma share_qty_add_share [simp]: "share_qty (add_share k sh) = share_qty sh + k"
  by (cases sh) (simp add: share_qty_def add_share_def)

lemma share_exact_add_share [simp]: "share_exact (add_share k sh) = share_exact sh"
  by (cases sh) (simp add: share_exact_def add_share_def)

lemma fst_add_share [simp]: "fst (add_share k sh) = fst sh"
  by (cases sh) (simp add: add_share_def)

lemma sum_list_update_add:
  "i < length xs \<Longrightarrow> sum_list (xs[i := xs ! i + k]) = sum_list xs + (k::int)"
  by (induction xs arbitrary: i) (auto split: nat.splits)

lemma total_assigned_update:
  "i < length shares \<Longrightarrow>
   total_assigned (shares[i := add_share k (shares ! i)]) = total_assigned shares + k"
  using sum_list_update_add [of i "map share_qty shares" k]
  by (simp add: total_assigned_conv map_update)

lemma exists_positive_share:
  assumes "0 < total_assigned shares"
  shows "\<exists>sh\<in>set shares. 0 < share_qty sh"
proof (rule ccontr)
  assume "\<not> (\<exists>sh\<in>set shares. 0 < share_qty sh)"
  then have "\<forall>x\<in>set (map share_qty shares). x \<le> 0" by auto
  then have "sum_list (map share_qty shares) \<le> 0"
    by (intro sum_list_nonpos) auto
  with assms show False by (simp add: total_assigned_conv)
qed

lemma total_assigned_decrement_step:
  "0 < total_assigned shares \<Longrightarrow>
   total_assigned (decrement_step shares) = total_assigned shares - 1"
  using decrement_step_cases [of shares] exists_positive_share [of shares]
  by (auto simp: first_argmin_def total_assigned_update)

lemma total_assigned_increment_step:
  "shares \<noteq> [] \<Longrightarrow>
   total_assigned (increment_step shares) = total_assigned shares + 1"
  using increment_step_cases [of shares]
  by (auto simp: first_argmin_def total_assigned_update)

lemma map_fst_decrement_step [simp]: "map fst (decrement_step shares) = map fst shares"
  using decrement_step_cases [of shares]
  by (auto simp: first_argmin_def map_update list_update_same_conv)

lemma map_fst_increment_step [simp]: "map fst (increment_step shares) = map fst shares"
  using increment_step_cases [of shares]
  by (auto simp: first_argmin_def map_update list_update_same_conv)

lemma map_exact_decrement_step [simp]:
  "map share_exact (decrement_step shares) = map share_exact shares"
  using decrement_step_cases [of shares]
  by (auto simp: first_argmin_def map_update list_update_same_conv)

lemma map_exact_increment_step [simp]:
  "map share_exact (increment_step shares) = map share_exact shares"
  using increment_step_cases [of shares]
  by (auto simp: first_argmin_def map_update list_update_same_conv)

lemma map_fst_funpow_decrement [simp]: "map fst ((decrement_step ^^ n) shares) = map fst shares"
  by (induction n) simp_all

lemma map_fst_funpow_increment [simp]: "map fst ((increment_step ^^ n) shares) = map fst shares"
  by (induction n) simp_all

lemma total_assigned_funpow_decrement:
  "0 \<le> t \<Longrightarrow> total_assigned shares = t + int n \<Longrightarrow>
   total_assigned ((decrement_step ^^ n) shares) = t"
proof (induction n arbitrary: shares)
  case 0
  then show ?case by simp
next
  case (Suc n)
  have "total_assigned (decrement_step shares) = t + int n"
    using Suc.prems by (simp add: total_assigned_decrement_step)
  then have "total_assigned ((decrement_step ^^ n) (decrement_step shares)) = t"
    using Suc.IH Suc.prems(1) by blast
  then show ?case by (simp add: funpow_swap1)
qed

lemma increment_step_nonempty: "shares \<noteq> [] \<Longrightarrow> increment_step shares \<noteq> []"
  using map_fst_increment_step [of shares] by (metis map_is_Nil_conv)

lemma total_assigned_funpow_increment:
  "shares \<noteq> [] \<Longrightarrow> total_assigned shares + int n = t \<Longrightarrow>
   total_assigned ((increment_step ^^ n) shares) = t"
proof (induction n arbitrary: shares)
  case 0
  then show ?case by simp
next
  case (Suc n)
  have "total_assigned (increment_step shares) + int n = t"
    using Suc.prems by (simp add: total_assigned_increment_step)
  then have "total_assigned ((increment_step ^^ n) (increment_step shares)) = t"
    using Suc.IH increment_step_nonempty [OF Suc.prems(1)] by blast
  then show ?case by (simp add: funpow_swap1)
qed

lemma total_assigned_correct_shares:
  assumes "shares \<noteq> []" and "0 \<le> t"
  shows "total_assigned (correct_shares t shares) = t"
proof -
  let ?d = "total_assigned shares - t"
  consider "?d = 0" | "0 < ?d" | "?d < 0" by linarith
  then show ?thesis
  proof cases
    case 1
    then show ?thesis by (simp add: correct_shares_def)
  next
    case 2
    then have "total_assigned shares = t + int (nat \<bar>?d\<bar>)" by simp
    from total_assigned_funpow_decrement [OF assms(2) this] 2
    show ?thesis by (simp add: correct_shares_def Let_def)
  next
    case 3
    then have "total_assigned shares + int (nat \<bar>?d\<bar>) = t" by simp
    from total_assigned_funpow_increment [OF assms(1) this] 3
    show ?thesis by (simp add: correct_shares_def Let_def)
  qed
qed

lemma map_fst_correct_shares [simp]: "map fst (correct_shares t shares) = map fst shares"
  by (simp add: correct_shares_def Let_def)

subsection \<open>Numeric participants\<close>

lemma numeric_active [simp]: "numeric (active_participants ps)"
  by (simp add: numeric_def active_participants_def list_all_iff)

lemma numeric_sort_key [simp]: "numeric (sort_key k ps) = numeric ps"
  by (simp add: numeric_def list_all_iff)

lemma numeric_py_prefix: "numeric ps \<Longrightarrow> numeric (py_prefix n ps)"
  by (auto simp: numeric_def list_all_iff py_prefix_def dest: in_set_takeD)

lemma numeric_top [simp]: "numeric (top_participants pr (active_participants ps))"
  by (simp add: top_participants_def numeric_py_prefix)

lemma damage_numeric: "\<not> is_hash (damage p) \<Longrightarrow> damage p = Num (weight p)"
  by (cases "damage p") (simp_all add: weight_def)

lemma py_sum_from_numeric:
  "numeric ps \<Longrightarrow> py_sum_from acc (map damage ps) = Inr (acc + total_weight ps)"
proof (induction ps arbitrary: acc)
  case Nil
  then show ?case by (simp add: total_weight_def)
next
  case (Cons p ps)
  then have "damage p = Num (weight p)" and "numeric ps"
    by (simp_all add: numeric_def damage_numeric)
  with Cons.IH show ?case by (simp add: total_weight_def add.assoc)
qed

lemma py_sum_numeric: "numeric ps \<Longrightarrow> py_sum (map damage ps) = Inr (total_weight ps)"
  by (simp add: py_sum_def py_sum_from_numeric)

lemma numeric_damages_numeric:
  "numeric ps \<Longrightarrow> numeric_damages ps = Inr (map (\<lambda>p. (p, weight p)) ps)"
proof (induction ps)
  case Nil
  then show ?case by simp
next
  case (Cons p ps)
  then have "damage p = Num (weight p)" and "numeric ps"
    by (simp_all add: numeric_def damage_numeric)
  with Cons.IH show ?case by simp
qed

lemma real_distribution_numeric:
  "numeric ps \<Longrightarrow> t \<noteq> 0 \<Longrightarrow>
   real_distribution ps t q = Inr (map (\<lambda>p. (pid p, pname p, q * (weight p / t))) ps)"
proof (induction ps)
  case Nil
  then show ?case by simp
next
  case (Cons p ps)
  then have "damage p = Num (weight p)" and "numeric ps"
    by (simp_all add: numeric_def damage_numeric)
  with Cons show ?case by simp
qed

lemma real_distribution_zero:
  "numeric ps \<Longrightarrow> ps \<noteq> [] \<Longrightarrow> real_distribution ps 0 q = Inl ZeroDivisionError"
  by (cases ps) (simp_all add: numeric_def damage_numeric)

lemma map_row: "map (\<lambda>(p, qty, e). (pid p, pname p, qty)) shares = map row shares"
  by (auto simp: row_def share_qty_def)

lemma calculate_integer_distribution_numeric:
  "numeric ps \<Longrightarrow> ps \<noteq> [] \<Longrightarrow> t \<noteq> 0 \<Longrightarrow>
   calculate_integer_distribution ps t q = sort_key fst (map row (integer_shares ps t q))"
  by (simp add: calculate_integer_distribution_def calculate_integer_distribution_body_def
      numeric_damages_numeric integer_shares_def map_row)

lemma calculate_integer_distribution_empty:
  "ps = [] \<or> t = 0 \<Longrightarrow> calculate_integer_distribution ps t q = []"
  by (auto simp: calculate_integer_distribution_def calculate_integer_distribution_body_def)

lemma map_fst_rounded_shares [simp]: "map fst (rounded_shares es) = map fst es"
  by (auto simp: rounded_shares_def)

lemma map_fst_exact_shares [simp]: "map fst (exact_shares pds t q) = map fst (sorted_desc snd pds)"
  by (auto simp: exact_shares_def)

lemma map_fst_integer_shares:
  "map fst (integer_shares ps t q) = map fst (sorted_desc snd (map (\<lambda>p. (p, weight p)) ps))"
  by (simp add: integer_shares_def)

lemma mset_sorted_desc [simp]: "mset (sorted_desc k xs) = mset xs"
  by (simp add: sorted_desc_def)

lemma length_sorted_desc [simp]: "length (sorted_desc k xs) = length xs"
  by (simp add: sorted_desc_def)

lemma mset_participants_integer_shares:
  "mset (map fst (integer_shares ps t q)) = mset ps"
proof -
  have "mset (map fst (integer_shares ps t q))
      = image_mset fst (mset (sorted_desc snd (map (\<lambda>p. (p, weight p)) ps)))"
    by (simp add: map_fst_integer_shares)
  also have "\<dots> = mset ps"
    by (simp add: image_mset.compositionality comp_def)
  finally show ?thesis .
qed

lemma length_integer_shares [simp]: "length (integer_shares ps t q) = length ps"
  using arg_cong [OF mset_participants_integer_shares, of size ps t q] by simp

lemma total_assigned_integer_shares:
  "ps \<noteq> [] \<Longrightarrow> 0 \<le> q \<Longrightarrow> total_assigned (integer_shares ps t q) = py_int q"
proof -
  assume ps: "ps \<noteq> []" and q: "0 \<le> q"
  have "length (rounded_shares (exact_shares (map (\<lambda>p. (p, weight p)) ps) t q)) = length ps"
    by (simp add: rounded_shares_def exact_shares_def)
  with ps have ne: "rounded_shares (exact_shares (map (\<lambda>p. (p, weight p)) ps) t q) \<noteq> []"
    by (metis length_0_conv)
  have "0 \<le> py_int q" using q by (simp add: py_int_def)
  from total_assigned_correct_shares [OF ne this]
  show ?thesis by (simp add: integer_shares_def)
qed

lemma sum_list_map_sort_key:
  "sum_list (map h (sort_key k xs)) = (sum_list (map h xs) :: rat)"
proof -
  have "mset (map h (sort_key k xs)) = mset (map h xs)" by simp
  then have "sum_mset (mset (map h (sort_key k xs))) = sum_mset (mset (map h xs))"
    by (rule arg_cong)
  then show ?thesis by (simp only: sum_mset_sum_list)
qed

lemma of_int_sum_list_map: "(\<Sum>x\<leftarrow>xs. rat_of_int (f x)) = of_int (sum_list (map f xs))"
  by (induction xs) simp_all

lemma allocated_total_integer:
  "allocated_total (as_distribution (sort_key fst (map row shares))) = of_int (total_assigned shares)"
proof -
  have "allocated_total (as_distribution (sort_key fst (map row shares)))
      = sum_list (map (\<lambda>r. of_int (snd (snd r))) (sort_key fst (map row shares)))"
    unfolding allocated_total_def as_distribution_def map_map
    by (rule arg_cong [where f = sum_list]) (auto simp: row_def)
  also have "\<dots> = sum_list (map (\<lambda>r. of_int (snd (snd r))) (map row shares))"
    by (rule sum_list_map_sort_key)
  also have "\<dots> = of_int (total_assigned shares)"
    by (simp add: total_assigned_conv row_def comp_def of_int_sum_list_map)
  finally show ?thesis .
qed

subsection \<open>Weights and the eligible set\<close>

lemma total_weight_sort_key [simp]: "total_weight (sort_key k ps) = total_weight ps"
  by (simp add: total_weight_def sum_list_map_sort_key)

lemma nonneg_weights_filter: "nonneg_weights ps \<Longrightarrow> nonneg_weights (filter P ps)"
  by (simp add: nonneg_weights_def list_all_iff)

lemma nonneg_weights_active: "nonneg_weights ps \<Longrightarrow> nonneg_weights (active_participants ps)"
  by (simp add: active_participants_def nonneg_weights_filter)

lemma nonneg_weights_sort_key [simp]: "nonneg_weights (sort_key k ps) = nonneg_weights ps"
  by (simp add: nonneg_weights_def list_all_iff)

lemma nonneg_weights_take: "nonneg_weights ps \<Longrightarrow> nonneg_weights (take n ps)"
  by (auto simp: nonneg_weights_def list_all_iff dest: in_set_takeD)

lemma nonneg_weights_drop: "nonneg_weights ps \<Longrightarrow> nonneg_weights (drop n ps)"
  by (auto simp: nonneg_weights_def list_all_iff dest: in_set_dropD)

lemma nonneg_weights_py_prefix: "nonneg_weights ps \<Longrightarrow> nonneg_weights (py_prefix n ps)"
  by (simp add: py_prefix_def nonneg_weights_take)

lemma total_weight_nonneg: "nonneg_weights ps \<Longrightarrow> 0 \<le> total_weight ps"
  unfolding nonneg_weights_def total_weight_def list_all_iff
  by (intro sum_list_nonneg) auto

lemma total_weight_take_le:
  assumes "nonneg_weights ps"
  shows "total_weight (take n ps) \<le> total_weight ps"
proof -
  have "total_weight ps = total_weight (take n ps) + total_weight (drop n ps)"
    unfolding total_weight_def by (metis append_take_drop_id map_append sum_list_append)
  moreover have "0 \<le> total_weight (drop n ps)"
    using assms by (intro total_weight_nonneg nonneg_weights_drop)
  ultimately show ?thesis by simp
qed

lemma total_weight_py_prefix_le:
  "nonneg_weights ps \<Longrightarrow> total_weight (py_prefix n ps) \<le> total_weight ps"
  by (simp add: py_prefix_def total_weight_take_le)

lemma nonneg_weights_eligible: "nonneg_weights ps \<Longrightarrow> nonneg_weights (eligible_set pr ps)"
  by (simp add: eligible_set_def top_participants_def nonneg_weights_py_prefix nonneg_weights_active)

lemma numeric_eligible [simp]: "numeric (eligible_set pr ps)"
  by (simp add: eligible_set_def)

lemma total_weight_eligible_le:
  "nonneg_weights ps \<Longrightarrow>
   total_weight (eligible_set pr ps) \<le> total_weight (active_participants ps)"
  using total_weight_py_prefix_le [of "sort_key pid (active_participants ps)" "top_winners pr"]
  by (simp add: eligible_set_def top_participants_def nonneg_weights_active)

lemma total_weight_Nil [simp]: "total_weight [] = 0"
  by (simp add: total_weight_def)

lemma eligible_positive:
  assumes "nonneg_weights ps" and "0 < total_weight (eligible_set pr ps)"
  shows "active_participants ps \<noteq> []" and "total_weight (active_participants ps) \<noteq> 0"
    and "eligible_set pr ps \<noteq> []"
proof -
  from total_weight_eligible_le [OF assms(1), of pr] assms(2)
  have pos: "0 < total_weight (active_participants ps)" by simp
  then show "total_weight (active_participants ps) \<noteq> 0" by simp
  from pos show "active_participants ps \<noteq> []" by auto
  from assms(2) show "eligible_set pr ps \<noteq> []" by auto
qed

lemma sorted_pid_py_prefix:
  "sorted (map pid ps) \<Longrightarrow> sorted (map pid (py_prefix n ps))"
  by (simp add: py_prefix_def sorted_wrt_take flip: take_map)

lemma sort_key_pid_eligible:
  "is_special pr \<Longrightarrow> sort_key pid (eligible_set pr ps) = eligible_set pr ps"
  by (simp add: eligible_set_def top_participants_def sort_key_id_if_sorted sorted_pid_py_prefix)

text \<open>What \<^const>\<open>calculate_distribution\<close> computes once its guards are passed.\<close>

lemma calculate_distribution_guard:
  "active_participants ps = [] \<or> total_weight (active_participants ps) = 0 \<Longrightarrow>
   calculate_distribution_body ps m pr = Inr []"
  by (auto simp: calculate_distribution_body_def Let_def py_sum_numeric)

lemma calculate_distribution_integer:
  assumes "active_participants ps \<noteq> []" and "total_weight (active_participants ps) \<noteq> 0"
  shows "calculate_distribution ps True pr =
         as_distribution (calculate_integer_distribution (eligible_set pr ps)
            (total_weight (eligible_set pr ps)) (quantity pr))"
  using assms
  by (simp add: calculate_distribution_def calculate_distribution_body_def Let_def
      py_sum_numeric eligible_set_def)

lemma calculate_distribution_real_body:
  assumes "active_participants ps \<noteq> []" and "total_weight (active_participants ps) \<noteq> 0"
  shows "calculate_distribution_body ps False pr =
         real_distribution (sort_key pid (eligible_set pr ps))
            (total_weight (eligible_set pr ps)) (quantity pr)"
proof (cases "is_special pr")
  case True
  with assms show ?thesis
    unfolding sort_key_pid_eligible [OF True]
    by (simp add: calculate_distribution_body_def Let_def py_sum_numeric eligible_set_def)
next
  case False
  with assms show ?thesis
    by (simp add: calculate_distribution_body_def Let_def py_sum_numeric eligible_set_def)
qed

lemma calculate_distribution_real:
  assumes "active_participants ps \<noteq> []" and "total_weight (active_participants ps) \<noteq> 0"
    and "total_weight (eligible_set pr ps) \<noteq> 0"
  shows "calculate_distribution ps False pr =
         map (\<lambda>p. (pid p, pname p, quantity pr * (weight p / total_weight (eligible_set pr ps))))
           (sort_key pid (eligible_set pr ps))"
  using assms
  by (simp add: calculate_distribution_def calculate_distribution_real_body
      real_distribution_numeric)

lemma py_int_of_int [simp]: "py_int (of_int n) = n"
  by (simp add: py_int_def)

lemma py_round_of_int [simp]: "py_round (of_int n) = n"
  by (simp add: py_round_def)

lemma real_mode_result:
  assumes "nonneg_weights ps" and "0 < total_weight (eligible_set pr ps)"
  shows "calculate_distribution ps False pr =
           map (\<lambda>p. (pid p, pname p, quantity pr * weight p / total_weight (eligible_set pr ps)))
             (sort_key pid (eligible_set pr ps))"
proof -
  note pos = eligible_positive [OF assms(1,2)]
  have t: "total_weight (eligible_set pr ps) \<noteq> 0" using assms(2) by simp
  show ?thesis using pos t by (simp add: calculate_distribution_real)
qed

lemma integer_mode_result:
  assumes "nonneg_weights ps" and "0 < total_weight (eligible_set pr ps)"
  shows "calculate_distribution ps True pr =
           as_distribution (sort_key fst (map row
             (integer_shares (eligible_set pr ps) (total_weight (eligible_set pr ps)) (quantity pr))))"
proof -
  note pos = eligible_positive [OF assms(1,2)]
  have t: "total_weight (eligible_set pr ps) \<noteq> 0" using assms(2) by simp
  show ?thesis using pos t
    by (simp add: calculate_distribution_integer calculate_integer_distribution_numeric)
qed

subsection \<open>Signs, lengths and identifiers of the result\<close>

lemma py_round_nonneg: "0 \<le> x \<Longrightarrow> 0 \<le> py_round x"
  by (simp add: py_round_def Let_def)

lemma nonneg_shares_update:
  "nonneg_shares shares \<Longrightarrow> 0 \<le> share_qty sh \<Longrightarrow> nonneg_shares (shares[i := sh])"
  using set_update_subset_insert [of shares i sh]
  by (auto simp: nonneg_shares_def list_all_iff)

lemma nonneg_shares_decrement_step:
  "nonneg_shares shares \<Longrightarrow> nonneg_shares (decrement_step shares)"
  using decrement_step_cases [of shares]
  by (auto simp: first_argmin_def intro!: nonneg_shares_update)

lemma nonneg_shares_increment_step:
  "nonneg_shares shares \<Longrightarrow> nonneg_shares (increment_step shares)"
proof -
  assume n: "nonneg_shares shares"
  from increment_step_cases [of shares] show ?thesis
  proof (elim disjE exE conjE)
    assume "increment_step shares = shares"
    with n show ?thesis by simp
  next
    fix i
    assume i: "first_argmin (\<lambda>sh. True) gain_of shares i"
      and eq: "increment_step shares = shares[i := add_share 1 (shares ! i)]"
    from i have "shares ! i \<in> set shares" by (simp add: first_argmin_def)
    with n have "0 \<le> share_qty (shares ! i)" by (simp add: nonneg_shares_def list_all_iff)
    then have "0 \<le> share_qty (add_share 1 (shares ! i))" by simp
    from nonneg_shares_update [OF n this] eq show ?thesis by simp
  qed
qed

lemma nonneg_shares_funpow_decrement:
  "nonneg_shares shares \<Longrightarrow> nonneg_shares ((decrement_step ^^ n) shares)"
  by (induction n) (simp_all add: nonneg_shares_decrement_step)

lemma nonneg_shares_funpow_increment:
  "nonneg_shares shares \<Longrightarrow> nonneg_shares ((increment_step ^^ n) shares)"
  by (induction n) (simp_all add: nonneg_shares_increment_step)

lemma nonneg_shares_correct_shares:
  "nonneg_shares shares \<Longrightarrow> nonneg_shares (correct_shares t shares)"
  by (simp add: correct_shares_def Let_def nonneg_shares_funpow_decrement
      nonneg_shares_funpow_increment)

lemma nonneg_shares_rounded:
  assumes "nonneg_weights ps" and "0 < t" and "0 \<le> q"
  shows "nonneg_shares (rounded_shares (exact_shares (map (\<lambda>p. (p, weight p)) ps) t q))"
proof -
  have "0 \<le> py_round (q * (weight p / t))" if "p \<in> set ps" for p
  proof -
    from that assms(1) have "0 \<le> weight p" by (simp add: nonneg_weights_def list_all_iff)
    with assms(2,3) have "0 \<le> q * (weight p / t)" by simp
    then show ?thesis by (rule py_round_nonneg)
  qed
  then show ?thesis
    by (auto simp: nonneg_shares_def list_all_iff rounded_shares_def exact_shares_def
        sorted_desc_def share_qty_def)
qed

lemma nonneg_integer_shares:
  "nonneg_weights ps \<Longrightarrow> 0 < t \<Longrightarrow> 0 \<le> q \<Longrightarrow> nonneg_shares (integer_shares ps t q)"
  by (simp add: integer_shares_def nonneg_shares_correct_shares nonneg_shares_rounded)

lemma calculate_distribution_zero_weight:
  assumes "nonneg_weights ps" and "\<not> 0 < total_weight (eligible_set pr ps)"
  shows "calculate_distribution ps m pr = []"
proof -
  let ?A = "active_participants ps" and ?E = "eligible_set pr ps"
  have zero: "total_weight ?E = 0"
    using total_weight_nonneg [OF nonneg_weights_eligible [OF assms(1)], of pr] assms(2) by simp
  show ?thesis
  proof (cases "?A = [] \<or> total_weight ?A = 0")
    case True
    then show ?thesis
      by (simp add: calculate_distribution_def calculate_distribution_guard)
  next
    case False
    then have A: "?A \<noteq> []" "total_weight ?A \<noteq> 0" by simp_all
    show ?thesis
    proof (cases m)
      case True
      then show ?thesis
        using calculate_distribution_integer [OF A, of pr] zero
        by (simp add: calculate_integer_distribution_empty as_distribution_def)
    next
      case False
      have "real_distribution (sort_key pid ?E) 0 (quantity pr) = Inr [] \<or>
            real_distribution (sort_key pid ?E) 0 (quantity pr) = Inl ZeroDivisionError"
      proof (cases "?E = []")
        case True
        then show ?thesis by simp
      next
        case False
        then have "sort_key pid ?E \<noteq> []" by (metis length_0_conv length_sort)
        then show ?thesis by (simp add: real_distribution_zero)
      qed
      then show ?thesis
        using False calculate_distribution_real_body [OF A, of pr] zero
        by (auto simp: calculate_distribution_def)
    qed
  qed
qed

lemma map_key_sort_key: "map k (sort_key k xs) = sort (map k xs)"
  by (rule sym, rule properties_for_sort) simp_all

lemma sort_cong_mset: "mset xs = mset ys \<Longrightarrow> sort xs = sort ys"
  by (rule properties_for_sort) simp_all

lemma map_fst_as_distribution [simp]: "map fst (as_distribution r) = map fst r"
  by (auto simp: as_distribution_def)

lemma result_ids:
  assumes "nonneg_weights ps" and "0 < total_weight (eligible_set pr ps)"
  shows "map fst (calculate_distribution ps m pr) = map pid (sort_key pid (eligible_set pr ps))"
proof (cases m)
  case True
  let ?E = "eligible_set pr ps"
  let ?S = "integer_shares ?E (total_weight ?E) (quantity pr)"
  note pos = eligible_positive [OF assms]
  have t: "total_weight ?E \<noteq> 0" using assms(2) by simp
  have "calculate_distribution ps True pr = as_distribution (sort_key fst (map row ?S))"
    using pos t
    by (simp add: calculate_distribution_integer calculate_integer_distribution_numeric)
  then have "map fst (calculate_distribution ps True pr) = sort (map fst (map row ?S))"
    by (simp add: map_key_sort_key)
  also have "map fst (map row ?S) = map pid (map fst ?S)"
    by (simp add: row_def)
  also have "sort (map pid (map fst ?S)) = sort (map pid ?E)"
  proof (rule sort_cong_mset)
    have "mset (map pid (map fst ?S)) = image_mset pid (mset (map fst ?S))"
      by (rule mset_map)
    also have "\<dots> = image_mset pid (mset ?E)"
      by (simp only: mset_participants_integer_shares)
    finally show "mset (map pid (map fst ?S)) = mset (map pid ?E)"
      by (simp only: mset_map)
  qed
  also have "\<dots> = map pid (sort_key pid ?E)"
    by (simp add: map_key_sort_key)
  finally show ?thesis using True by simp
next
  case False
  then show ?thesis
    using real_mode_result [OF assms] by simp
qed

lemma sorted_desc_weights:
  "sorted_wrt (\<lambda>a b. k b \<le> k a) (sorted_desc k xs)"
proof -
  have "sorted (map (\<lambda>x. - k x) (sorted_desc k xs))"
    by (simp add: sorted_desc_def)
  then show ?thesis
    by (simp add: sorted_wrt_map)
qed

lemma sorted_desc_pairs:
  "sorted_wrt (\<lambda>a b. weight b \<le> weight a) (map fst (sorted_desc snd (map (\<lambda>p. (p, weight p)) ps)))"
proof -
  let ?xs = "sorted_desc snd (map (\<lambda>p. (p, weight p)) ps)"
  have "set ?xs = set (map (\<lambda>p. (p, weight p)) ps)"
    by (simp add: sorted_desc_def)
  then have snd_eq: "\<forall>x\<in>set ?xs. snd x = weight (fst x)" by auto
  have "sorted_wrt (\<lambda>a b. snd b \<le> snd a) ?xs" by (rule sorted_desc_weights)
  then have "sorted_wrt (\<lambda>a b. weight (fst b) \<le> weight (fst a)) ?xs"
    by (rule sorted_wrt_mono_rel [rotated]) (use snd_eq in auto)
  then show ?thesis by (simp add: sorted_wrt_map)
qed



lemma sorted_take_drop_le:
  assumes "sorted (map k xs)" and "x \<in> set (take n xs)" and "y \<in> set xs" and "y \<notin> set (take n xs)"
  shows "k x \<le> k y"
proof -
  have "set xs = set (take n xs) \<union> set (drop n xs)"
    by (metis append_take_drop_id set_append)
  with assms(3,4) have y: "y \<in> set (drop n xs)" by blast
  have "sorted (map k (take n xs) @ map k (drop n xs))"
    using assms(1) by (simp flip: map_append)
  then have "\<forall>a\<in>set (map k (take n xs)). \<forall>b\<in>set (map k (drop n xs)). a \<le> b"
    by (simp add: sorted_append)
  with assms(2) y show ?thesis by simp
qed

subsection \<open>The rounding\<close>

text \<open>
  \<^verbatim>\<open>round\<close> differs from rounding half up exactly at the ties whose lower neighbour is
  even, where it is one less.
\<close>

lemma py_round_half_up:
  "py_round x =
     (if x - of_int \<lfloor>x\<rfloor> = 1 / 2 \<and> even \<lfloor>x\<rfloor> then round_half_up x - 1 else round_half_up x)"
proof -
  let ?f = "\<lfloor>x\<rfloor>"
  let ?d = "x - of_int ?f"
  have d0: "0 \<le> ?d" and d1: "?d < 1" by linarith+
  have up: "round_half_up x = (if ?d < 1 / 2 then ?f else ?f + 1)"
  proof (cases "?d < 1 / 2")
    case True
    then have "\<lfloor>x + 1 / 2\<rfloor> = ?f" by (intro floor_unique) linarith+
    with True show ?thesis by (simp add: round_half_up_def)
  next
    case False
    then have "of_int (?f + 1) \<le> x + 1 / 2" and "x + 1 / 2 < of_int (?f + 1) + 1"
      using d1 by (simp_all add: algebra_simps)
    then have "\<lfloor>x + 1 / 2\<rfloor> = ?f + 1" by (rule floor_unique)
    with False show ?thesis by (simp add: round_half_up_def)
  qed
  show ?thesis
    unfolding up by (auto simp: py_round_def Let_def)
qed

subsection \<open>What a program leaves of the store\<close>

lemma framesI:
  assumes "\<And>h r h'. n \<le> length h \<Longrightarrow> m h = (r, h') \<Longrightarrow>
             n \<le> length h' \<and> take n h' = take n h \<and> (\<forall>x. r = Inr x \<longrightarrow> Q x)"
  shows "frames n m Q"
  unfolding frames_def using assms by (auto split: prod.splits sum.splits)

lemma framesD:
  assumes "frames n m Q" and "n \<le> length h" and "m h = (r, h')"
  shows "n \<le> length h'" and "take n h' = take n h" and "r = Inr x \<Longrightarrow> Q x"
  using assms unfolding frames_def by (auto split: prod.splits sum.splits)

lemma frames_weaken: "frames n m P \<Longrightarrow> (\<And>x. P x \<Longrightarrow> Q x) \<Longrightarrow> frames n m Q"
  unfolding frames_def by (fastforce split: prod.splits sum.splits)

lemma frames_ret: "Q x \<Longrightarrow> frames n (ret x) Q"
  by (simp add: frames_def ret_def)

lemma frames_raise: "frames n (raise e) Q"
  by (simp add: frames_def raise_def)

lemma frames_lift: "frames n (lift r) (\<lambda>x. True)"
  by (simp add: frames_def lift_def split: sum.splits)

lemma frames_bind:
  assumes "frames n m P" and "\<And>x. P x \<Longrightarrow> frames n (f x) Q"
  shows "frames n (bind m f) Q"
proof (rule framesI)
  fix h r h'
  assume n: "n \<le> length h" and run: "bind m f h = (r, h')"
  obtain r1 h1 where m: "m h = (r1, h1)" by (cases "m h")
  note d = framesD [OF assms(1) n m]
  show "n \<le> length h' \<and> take n h' = take n h \<and> (\<forall>x. r = Inr x \<longrightarrow> Q x)"
  proof (cases r1)
    case (Inl e)
    with run m d show ?thesis by (auto simp: bind_def)
  next
    case (Inr x)
    with d have "P x" by simp
    then have fx: "frames n (f x) Q" by (rule assms(2))
    from run m Inr have "f x h1 = (r, h')" by (simp add: bind_def)
    from framesD [OF fx d(1) this] d(2) show ?thesis by simp
  qed
qed

lemma frames_try_except: "frames n m Q \<Longrightarrow> Q d \<Longrightarrow> frames n (try_except m d) Q"
  unfolding frames_def try_except_def by (fastforce split: prod.splits sum.splits)

lemma frames_alloc: "frames n (alloc ob) (\<lambda>a. n \<le> a)"
  by (simp add: frames_def alloc_def)

lemma frames_lookup: "frames n (lookup a) (\<lambda>x. True)"
  by (simp add: frames_def lookup_def)

lemma frames_store: "n \<le> a \<Longrightarrow> frames n (store a ob) (\<lambda>x. True)"
  by (simp add: frames_def store_def)

lemma frames_mapM:
  assumes "\<And>x. x \<in> set xs \<Longrightarrow> frames n (f x) Q"
  shows "frames n (mapM f xs) (list_all Q)"
  using assms
proof (induction xs)
  case Nil
  show ?case by (simp add: frames_def)
next
  case (Cons x xs)
  have fx: "frames n (f x) Q" by (rule Cons.prems) simp
  have rest: "frames n (mapM f xs) (list_all Q)"
    by (rule Cons.IH) (simp add: Cons.prems)
  show ?case
  proof (rule framesI)
    fix h r h'
    assume n: "n \<le> length h" and run: "mapM f (x # xs) h = (r, h')"
    obtain r1 h1 where m: "f x h = (r1, h1)" by (cases "f x h")
    note d = framesD [OF fx n m]
    show "n \<le> length h' \<and> take n h' = take n h \<and> (\<forall>y. r = Inr y \<longrightarrow> list_all Q y)"
    proof (cases r1)
      case (Inl e)
      with run m d show ?thesis by auto
    next
      case (Inr y)
      obtain r2 h2 where m2: "mapM f xs h1 = (r2, h2)" by (cases "mapM f xs h1")
      note d2 = framesD [OF rest d(1) m2]
      from Inr d have "Q y" by simp
      with run m m2 Inr d d2 show ?thesis by (auto split: sum.splits)
    qed
  qed
qed

lemma frames_foldM:
  assumes "I s" and "\<And>s x. I s \<Longrightarrow> x \<in> set xs \<Longrightarrow> frames n (f s x) I"
  shows "frames n (foldM f s xs) I"
  using assms
proof (induction xs arbitrary: s)
  case Nil
  then show ?case by (simp add: frames_def)
next
  case (Cons x xs)
  have fx: "frames n (f s x) I" by (rule Cons.prems(2)) (simp_all add: Cons.prems(1))
  show ?case
  proof (rule framesI)
    fix h r h'
    assume n: "n \<le> length h" and run: "foldM f s (x # xs) h = (r, h')"
    obtain r1 h1 where m: "f s x h = (r1, h1)" by (cases "f s x h")
    note d = framesD [OF fx n m]
    show "n \<le> length h' \<and> take n h' = take n h \<and> (\<forall>y. r = Inr y \<longrightarrow> I y)"
    proof (cases r1)
      case (Inl e)
      with run m d show ?thesis by auto
    next
      case (Inr s')
      with d have "I s'" by simp
      then have "frames n (foldM f s' xs) I"
        by (rule Cons.IH) (simp add: Cons.prems(2))
      moreover from run m Inr have "foldM f s' xs h1 = (r, h')" by simp
      ultimately show ?thesis using framesD [of n "foldM f s' xs" I h1 r h'] d by simp
    qed
  qed
qed

lemma frames_repeatM:
  assumes "frames n m (\<lambda>u. True)"
  shows "frames n (repeatM k m) (\<lambda>u. True)"
proof (induction k)
  case 0
  show ?case by (simp add: frames_def)
next
  case (Suc k)
  show ?case
  proof (rule framesI)
    fix h r h'
    assume n: "n \<le> length h" and run: "repeatM (Suc k) m h = (r, h')"
    obtain r1 h1 where m: "m h = (r1, h1)" by (cases "m h")
    note d = framesD [OF assms n m]
    show "n \<le> length h' \<and> take n h' = take n h \<and> (\<forall>y. r = Inr y \<longrightarrow> True)"
    proof (cases r1)
      case (Inl e)
      with run m d show ?thesis by auto
    next
      case (Inr u)
      with run m have "repeatM k m h1 = (r, h')" by simp
      from framesD [OF Suc d(1) this] d show ?thesis by simp
    qed
  qed
qed

lemma frames_bind_any:
  "frames n m (\<lambda>x. True) \<Longrightarrow> (\<And>x. frames n (f x) Q) \<Longrightarrow> frames n (bind m f) Q"
  by (rule frames_bind)

lemma frames_any: "frames n m P \<Longrightarrow> frames n m (\<lambda>x. True)"
  by (erule frames_weaken) simp

lemma frames_get_participant: "frames n (get_participant a) (\<lambda>x. True)"
  unfolding get_participant_def
  by (rule frames_bind_any [OF frames_lookup]) (auto split: obj.splits intro: frames_ret frames_raise)

lemma frames_get_prize: "frames n (get_prize a) (\<lambda>x. True)"
  unfolding get_prize_def
  by (rule frames_bind_any [OF frames_lookup]) (auto split: obj.splits intro: frames_ret frames_raise)

lemma frames_get_list: "frames n (get_list a) (\<lambda>x. True)"
  unfolding get_list_def
  by (rule frames_bind_any [OF frames_lookup]) (auto split: obj.splits intro: frames_ret frames_raise)

lemma frames_get_row: "frames n (get_row a) (\<lambda>x. True)"
  unfolding get_row_def
  by (rule frames_bind_any [OF frames_lookup]) (auto split: obj.splits intro: frames_ret frames_raise)

lemma frames_row_get: "frames n (row_get a i) (\<lambda>x. True)"
  unfolding row_get_def
  by (rule frames_bind_any [OF frames_get_row]) (auto intro: frames_ret frames_raise)

lemma frames_row_set: "n \<le> a \<Longrightarrow> frames n (row_set a i c) (\<lambda>x. True)"
  unfolding row_set_def
  by (rule frames_bind_any [OF frames_get_row]) (auto intro: frames_store frames_raise)

lemma frames_cell_num: "frames n (cell_num c) (\<lambda>x. True)"
  by (cases c) (auto intro: frames_ret frames_raise)

lemma frames_cell_add: "frames n (cell_add c k) (\<lambda>x. True)"
  by (cases c) (auto intro: frames_ret frames_raise)

lemma frames_get_damage: "frames n (get_damage a) (\<lambda>x. True)"
  unfolding get_damage_def
  by (rule frames_bind_any [OF frames_get_participant]) (rule frames_ret, simp)

lemma frames_mapM_any:
  "(\<And>x. frames n (f x) (\<lambda>y. True)) \<Longrightarrow> frames n (mapM f xs) (\<lambda>ys. True)"
  by (rule frames_any, rule frames_mapM)

lemma frames_sum_damage_st: "frames n (sum_damage_st refs) (\<lambda>x. True)"
  unfolding sum_damage_st_def
  by (rule frames_bind_any [OF frames_mapM_any]) (rule frames_get_damage, rule frames_lift)

lemma frames_sorted_by_id_st: "frames n (sorted_by_id_st refs) (\<lambda>x. True)"
  unfolding sorted_by_id_st_def
proof (rule frames_bind_any [OF frames_mapM_any])
  show "frames n (bind (get_participant a) (\<lambda>p. ret (a, pid p))) (\<lambda>y. True)" for a
    by (rule frames_bind_any [OF frames_get_participant]) (rule frames_ret, simp)
  show "frames n (ret (map fst (sort_key snd keyed))) (\<lambda>x. True)" for keyed :: "(addr \<times> int) list"
    by (rule frames_ret) simp
qed

lemma frames_sorted_by_damage_st: "frames n (sorted_by_damage_st refs) (\<lambda>x. True)"
  unfolding sorted_by_damage_st_def
proof (rule frames_bind_any [OF frames_mapM_any])
  show "frames n (bind (get_damage a)
          (\<lambda>d. case d of Num r \<Rightarrow> ret (a, r) | Hash \<Rightarrow> raise TypeError)) (\<lambda>y. True)" for a
    by (rule frames_bind_any [OF frames_get_damage])
       (auto split: damage.splits intro: frames_ret frames_raise)
  show "frames n (ret (map fst (sorted_desc snd keyed))) (\<lambda>x. True)" for keyed :: "(addr \<times> rat) list"
    by (rule frames_ret) simp
qed

lemma frames_new_share_st: "frames n (new_share_st total_damage q a) (\<lambda>share. n \<le> share)"
  unfolding new_share_st_def Let_def
  by (rule frames_bind_any [OF frames_get_damage], rule frames_bind_any [OF frames_lift],
      rule frames_alloc)

lemma frames_round_share_st:
  "n \<le> share \<Longrightarrow> frames n (round_share_st assigned share) (\<lambda>x. True)"
  unfolding round_share_st_def Let_def
  by (rule frames_bind_any [OF frames_row_get], rule frames_bind_any [OF frames_cell_num],
      rule frames_bind_any [OF frames_row_set], assumption, rule frames_ret, simp)

lemma frames_scan_loss_body: "frames n (scan_loss_body st share) (\<lambda>x. True)"
proof -
  obtain j min_loss min_idx where st: "st = (j, min_loss, min_idx)" by (cases st)
  show ?thesis
    unfolding scan_loss_body_def st prod.case Let_def
    by (rule frames_bind_any [OF frames_row_get], rule frames_bind_any [OF frames_cell_num])
       (auto intro!: frames_ret frames_bind_any [OF frames_row_get]
          frames_bind_any [OF frames_cell_num])
qed

lemma frames_scan_gain_body: "frames n (scan_gain_body st share) (\<lambda>x. True)"
proof -
  obtain j min_gain min_idx where st: "st = (j, min_gain, min_idx)" by (cases st)
  show ?thesis
    unfolding scan_gain_body_def st prod.case Let_def
    by (rule frames_bind_any [OF frames_row_get], rule frames_bind_any [OF frames_cell_num])
       (auto intro!: frames_ret frames_bind_any [OF frames_row_get]
          frames_bind_any [OF frames_cell_num])
qed

lemma frames_bump_share_st:
  assumes "list_all (\<lambda>a. n \<le> a) shares"
  shows "frames n (bump_share_st shares min_idx k) (\<lambda>x. True)"
proof -
  have "n \<le> shares ! nat min_idx" if "nat min_idx < length shares"
    using assms that by (simp add: list_all_length)
  then show ?thesis
    unfolding bump_share_st_def Let_def
    by (auto intro!: frames_ret frames_raise frames_bind_any [OF frames_row_get]
          frames_bind_any [OF frames_cell_add] frames_row_set)
qed

lemma frames_foldM_any:
  "(\<And>s x. frames n (f s x) (\<lambda>y. True)) \<Longrightarrow> frames n (foldM f s xs) (\<lambda>y. True)"
  by (rule frames_foldM) simp_all

lemma frames_decrement_step_st:
  "list_all (\<lambda>a. n \<le> a) shares \<Longrightarrow> frames n (decrement_step_st shares) (\<lambda>x. True)"
  unfolding decrement_step_st_def
  by (rule frames_bind_any [OF frames_foldM_any], rule frames_scan_loss_body)
     (auto intro: frames_bump_share_st)

lemma frames_increment_step_st:
  "list_all (\<lambda>a. n \<le> a) shares \<Longrightarrow> frames n (increment_step_st shares) (\<lambda>x. True)"
  unfolding increment_step_st_def
  by (rule frames_bind_any [OF frames_foldM_any], rule frames_scan_gain_body)
     (auto intro: frames_bump_share_st)

lemma frames_result_row_st: "frames n (result_row_st share) (\<lambda>x. True)"
  unfolding result_row_st_def
  by (rule frames_bind_any [OF frames_get_row])
     (auto split: list.splits cell.splits
        intro!: frames_raise frames_ret frames_bind_any [OF frames_get_participant]
          frames_bind_any [OF frames_cell_num])

lemma frames_calculate_integer_distribution_st:
  "frames n (calculate_integer_distribution_st participants total_damage q) (\<lambda>x. True)"
proof -
  have rounds: "frames n (foldM round_share_st 0 shares) (\<lambda>x. True)"
    if "list_all (\<lambda>a. n \<le> a) shares" for shares
    using that by (intro frames_foldM frames_round_share_st) (simp_all add: list_all_iff)
  have corrects: "frames n
      (if diff \<noteq> 0 then
         (if 0 < diff then repeatM (nat \<bar>diff\<bar>) (decrement_step_st shares)
          else repeatM (nat \<bar>diff\<bar>) (increment_step_st shares))
       else ret ()) (\<lambda>x. True)"
    if "list_all (\<lambda>a. n \<le> a) shares" for shares and diff :: int
    using that
    by (auto intro!: frames_ret frames_repeatM frames_decrement_step_st frames_increment_step_st)
  have results: "frames n (bind (mapM result_row_st shares) (\<lambda>result. ret (sort_key fst result)))
      (\<lambda>x. True)" for shares
    by (rule frames_bind_any [OF frames_mapM_any], rule frames_result_row_st, rule frames_ret, simp)
  have body: "frames n
      (bind (sorted_by_damage_st participants) (\<lambda>ordered.
       bind (mapM (new_share_st total_damage q) ordered) (\<lambda>shares.
       bind (foldM round_share_st 0 shares) (\<lambda>assigned.
         bind (if assigned - py_int q \<noteq> 0 then
                 (if 0 < assigned - py_int q
                  then repeatM (nat \<bar>assigned - py_int q\<bar>) (decrement_step_st shares)
                  else repeatM (nat \<bar>assigned - py_int q\<bar>) (increment_step_st shares))
               else ret ()) (\<lambda>u.
           bind (mapM result_row_st shares) (\<lambda>result. ret (sort_key fst result)))))))
      (\<lambda>x. True)"
  proof (rule frames_bind_any [OF frames_sorted_by_damage_st])
    fix ordered
    show "frames n
      (bind (mapM (new_share_st total_damage q) ordered) (\<lambda>shares.
       bind (foldM round_share_st 0 shares) (\<lambda>assigned.
         bind (if assigned - py_int q \<noteq> 0 then
                 (if 0 < assigned - py_int q
                  then repeatM (nat \<bar>assigned - py_int q\<bar>) (decrement_step_st shares)
                  else repeatM (nat \<bar>assigned - py_int q\<bar>) (increment_step_st shares))
               else ret ()) (\<lambda>u.
           bind (mapM result_row_st shares) (\<lambda>result. ret (sort_key fst result))))))
      (\<lambda>x. True)"
    proof (rule frames_bind [OF frames_mapM [OF frames_new_share_st]])
      fix shares
      assume fresh: "list_all (\<lambda>a. n \<le> a) shares"
      show "frames n
        (bind (foldM round_share_st 0 shares) (\<lambda>assigned.
           bind (if assigned - py_int q \<noteq> 0 then
                   (if 0 < assigned - py_int q
                    then repeatM (nat \<bar>assigned - py_int q\<bar>) (decrement_step_st shares)
                    else repeatM (nat \<bar>assigned - py_int q\<bar>) (increment_step_st shares))
                 else ret ()) (\<lambda>u.
             bind (mapM result_row_st shares) (\<lambda>result. ret (sort_key fst result)))))
        (\<lambda>x. True)"
        by (rule frames_bind_any [OF rounds [OF fresh]],
            rule frames_bind_any [OF corrects [OF fresh]], rule results)
    qed
  qed
  show ?thesis
    unfolding calculate_integer_distribution_st_def Let_def
  proof (rule frames_try_except)
    show "frames n
      (if participants = [] \<or> total_damage = 0 then ret []
       else bind (sorted_by_damage_st participants) (\<lambda>ordered.
            bind (mapM (new_share_st total_damage q) ordered) (\<lambda>shares.
            bind (foldM round_share_st 0 shares) (\<lambda>assigned.
              bind (if assigned - py_int q \<noteq> 0 then
                      (if 0 < assigned - py_int q
                       then repeatM (nat \<bar>assigned - py_int q\<bar>) (decrement_step_st shares)
                       else repeatM (nat \<bar>assigned - py_int q\<bar>) (increment_step_st shares))
                    else ret ()) (\<lambda>u.
                bind (mapM result_row_st shares) (\<lambda>result. ret (sort_key fst result)))))))
      (\<lambda>x. True)"
    proof (cases "participants = [] \<or> total_damage = 0")
      case True
      then show ?thesis by (simp only: if_True) (rule frames_ret, simp)
    next
      case False
      with body show ?thesis by (simp only: if_False)
    qed
  qed simp
qed

lemma frames_real_share_st: "frames n (real_share_st total_damage q a) (\<lambda>x. True)"
  unfolding real_share_st_def
  by (rule frames_bind_any [OF frames_get_participant], rule frames_bind_any [OF frames_lift],
      rule frames_ret, simp)

lemma frames_is_active_st: "frames n (is_active_st a) (\<lambda>x. True)"
  unfolding is_active_st_def
  by (rule frames_bind_any [OF frames_get_participant]) (rule frames_ret, simp)

lemma frames_active_participants_st: "frames n (active_participants_st refs) (\<lambda>x. True)"
  unfolding active_participants_st_def
  by (rule frames_bind_any [OF frames_mapM_any])
     (auto intro!: frames_ret frames_bind_any [OF frames_is_active_st])

lemma frames_calculate_distribution_st:
  "frames n (calculate_distribution_st self_participants integer_only prize_ref) (\<lambda>x. True)"
  unfolding calculate_distribution_st_def Let_def
  by (rule frames_try_except)
     (auto intro!: frames_ret frames_bind_any [OF frames_get_list]
        frames_bind_any [OF frames_active_participants_st]
        frames_bind_any [OF frames_sum_damage_st] frames_bind_any [OF frames_get_prize]
        frames_bind_any [OF frames_sorted_by_id_st] frames_calculate_integer_distribution_st
        frames_mapM_any frames_real_share_st)

subsection \<open>The programs over the store return what the functions return\<close>

lemma ret_run [simp]: "ret x h = (Inr x, h)"
  by (simp add: ret_def)

lemma raise_run [simp]: "raise e h = (Inl e, h)"
  by (simp add: raise_def)

lemma lift_run [simp]: "lift r h = (r, h)"
  by (simp add: lift_def)

lemma bind_run: "m h = (Inr x, h') \<Longrightarrow> bind m f h = f x h'"
  by (simp add: bind_def)

lemma bind_error: "m h = (Inl e, h') \<Longrightarrow> bind m f h = (Inl e, h')"
  by (simp add: bind_def)

lemma get_participant_run:
  "holds_participant h a p \<Longrightarrow> get_participant a h = (Inr p, h)"
  by (simp add: holds_participant_def get_participant_def bind_def lookup_def)

lemma get_damage_run:
  "holds_participant h a p \<Longrightarrow> get_damage a h = (Inr (damage p), h)"
  using get_participant_run [of h a p] by (simp add: get_damage_def bind_def)

lemma get_row_run: "holds_row h a cs \<Longrightarrow> get_row a h = (Inr cs, h)"
  by (simp add: holds_row_def get_row_def bind_def lookup_def)

lemma row_get_run:
  "holds_row h a cs \<Longrightarrow> i < length cs \<Longrightarrow> row_get a i h = (Inr (cs ! i), h)"
  using get_row_run [of h a cs] by (simp add: row_get_def bind_def)

lemma row_set_run:
  "holds_row h a cs \<Longrightarrow> i < length cs \<Longrightarrow>
   row_set a i c h = (Inr (), h[a := RowObj (cs[i := c])])"
  using get_row_run [of h a cs] by (simp add: row_set_def bind_def store_def holds_row_def)

lemma mapM_reads:
  "(\<And>x. x \<in> set xs \<Longrightarrow> f (k x) h = (Inr (g x), h)) \<Longrightarrow>
   mapM f (map k xs) h = (Inr (map g xs), h)"
  by (induction xs) simp_all

lemma referencedD: "referenced h aps \<Longrightarrow> ap \<in> set aps \<Longrightarrow> holds_participant h (fst ap) (snd ap)"
  by (simp add: referenced_def list_all_iff)

lemma referenced_subset: "referenced h aps \<Longrightarrow> set bps \<subseteq> set aps \<Longrightarrow> referenced h bps"
  by (auto simp: referenced_def list_all_iff)

lemma insort_key_map:
  "insort_key f (g x) (map g xs) = map g (insort_key (\<lambda>y. f (g y)) x xs)"
  by (induction xs) simp_all

lemma sort_key_map: "sort_key f (map g xs) = map g (sort_key (\<lambda>y. f (g y)) xs)"
  by (induction xs) (simp_all add: insort_key_map)

lemma sorted_desc_map: "sorted_desc f (map g xs) = map g (sorted_desc (\<lambda>y. f (g y)) xs)"
  by (simp add: sorted_desc_def sort_key_map)

lemma py_prefix_map: "py_prefix n (map g xs) = map g (py_prefix n xs)"
  by (simp add: py_prefix_def take_map)

lemma set_py_prefix: "set (py_prefix n xs) \<subseteq> set xs"
  by (auto simp: py_prefix_def dest: in_set_takeD)

lemma active_participants_st_run:
  assumes "referenced h aps"
  shows "active_participants_st (map fst aps) h =
         (Inr (map fst (filter (\<lambda>ap. enabled (snd ap) \<and> \<not> is_hash (damage (snd ap))) aps)), h)"
proof -
  let ?c = "\<lambda>ap. enabled (snd ap) \<and> \<not> is_hash (damage (snd ap))"
  have "mapM (\<lambda>a. bind (is_active_st a) (\<lambda>b. ret (a, b))) (map fst aps) h =
        (Inr (map (\<lambda>ap. (fst ap, ?c ap)) aps), h)"
  proof (rule mapM_reads)
    fix ap assume "ap \<in> set aps"
    with assms have "holds_participant h (fst ap) (snd ap)" by (rule referencedD)
    then have "get_participant (fst ap) h = (Inr (snd ap), h)"
      by (rule get_participant_run)
    then have "is_active_st (fst ap) h = (Inr (?c ap), h)"
      by (simp add: is_active_st_def bind_def)
    then show "bind (is_active_st (fst ap)) (\<lambda>b. ret (fst ap, b)) h = (Inr (fst ap, ?c ap), h)"
      by (simp add: bind_def)
  qed
  moreover have "map fst (filter snd (map (\<lambda>ap. (fst ap, ?c ap)) aps)) = map fst (filter ?c aps)"
    by (induction aps) simp_all
  ultimately show ?thesis
    by (simp add: active_participants_st_def bind_def)
qed

lemma active_participants_map_snd:
  "active_participants (map snd aps) =
   map snd (filter (\<lambda>ap. enabled (snd ap) \<and> \<not> is_hash (damage (snd ap))) aps)"
  by (simp add: active_participants_def filter_map comp_def)

lemma sum_damage_st_run:
  assumes "referenced h aps"
  shows "sum_damage_st (map fst aps) h = (py_sum (map damage (map snd aps)), h)"
proof -
  have "mapM get_damage (map fst aps) h = (Inr (map (\<lambda>ap. damage (snd ap)) aps), h)"
    by (rule mapM_reads) (simp add: get_damage_run referencedD [OF assms])
  then show ?thesis
    by (simp add: sum_damage_st_def bind_def comp_def)
qed

lemma sorted_by_id_st_run:
  assumes "referenced h aps"
  shows "sorted_by_id_st (map fst aps) h = (Inr (map fst (sort_key (\<lambda>ap. pid (snd ap)) aps)), h)"
proof -
  have "mapM (\<lambda>a. bind (get_participant a) (\<lambda>p. ret (a, pid p))) (map fst aps) h =
        (Inr (map (\<lambda>ap. (fst ap, pid (snd ap))) aps), h)"
  proof (rule mapM_reads)
    fix ap assume "ap \<in> set aps"
    from get_participant_run [OF referencedD [OF assms this]]
    show "bind (get_participant (fst ap)) (\<lambda>p. ret (fst ap, pid p)) h =
          (Inr (fst ap, pid (snd ap)), h)"
      by (simp add: bind_def)
  qed
  then show ?thesis
    by (simp add: sorted_by_id_st_def bind_def sort_key_map comp_def)
qed

lemma sorted_by_damage_st_run:
  assumes "referenced h aps" and "numeric (map snd aps)"
  shows "sorted_by_damage_st (map fst aps) h =
         (Inr (map fst (sorted_desc (\<lambda>ap. weight (snd ap)) aps)), h)"
proof -
  have "mapM (\<lambda>a. bind (get_damage a)
               (\<lambda>d. case d of Num r \<Rightarrow> ret (a, r) | Hash \<Rightarrow> raise TypeError)) (map fst aps) h =
        (Inr (map (\<lambda>ap. (fst ap, weight (snd ap))) aps), h)"
  proof (rule mapM_reads)
    fix ap assume ap: "ap \<in> set aps"
    with assms(2) have "damage (snd ap) = Num (weight (snd ap))"
      by (simp add: numeric_def list_all_iff damage_numeric)
    with get_damage_run [OF referencedD [OF assms(1) ap]]
    show "bind (get_damage (fst ap))
            (\<lambda>d. case d of Num r \<Rightarrow> ret (fst ap, r) | Hash \<Rightarrow> raise TypeError) h =
          (Inr (fst ap, weight (snd ap)), h)"
      by (simp add: bind_def)
  qed
  then show ?thesis
    by (simp add: sorted_by_damage_st_def bind_def sorted_desc_map comp_def)
qed

lemma real_distribution_st_run:
  assumes "referenced h aps"
  shows "mapM (real_share_st t q) (map fst aps) h = (real_distribution (map snd aps) t q, h)"
  using assms
proof (induction aps)
  case Nil
  then show ?case by simp
next
  case (Cons ap aps)
  then have hp: "holds_participant h (fst ap) (snd ap)" and rest: "referenced h aps"
    by (simp_all add: referenced_def)
  have step: "real_share_st t q (fst ap) h =
    (case py_div (damage (snd ap)) t of Inl e \<Rightarrow> Inl e
     | Inr ratio \<Rightarrow> Inr (pid (snd ap), pname (snd ap), q * ratio), h)"
    using get_participant_run [OF hp]
    by (simp add: real_share_st_def bind_def split: sum.splits)
  show ?case
    using Cons.IH [OF rest] step
    by (simp split: sum.splits)
qed

lemma scan_loss_body_run:
  assumes "holds_row h a (row_cells pa sh)"
  shows "scan_loss_body (j, ml, mi) a h =
         (Inr (if 0 < share_qty sh \<and> (case ml of None \<Rightarrow> True | Some m \<Rightarrow> loss_of sh < m)
               then (Suc j, Some (loss_of sh), int j) else (Suc j, ml, mi)), h)"
proof -
  have r1: "row_get a (Suc 0) h = (Inr (Intg (share_qty sh)), h)"
    using row_get_run [OF assms, of "Suc 0"] by (simp add: row_cells_def)
  have r2: "row_get a 2 h = (Inr (Flt (share_exact sh)), h)"
    using row_get_run [OF assms, of 2] by (simp add: row_cells_def)
  show ?thesis
    by (simp add: scan_loss_body_def bind_def r1 r2 loss_of_def Let_def split: option.splits)
qed

lemma scan_gain_body_run:
  assumes "holds_row h a (row_cells pa sh)"
  shows "scan_gain_body (j, ml, mi) a h =
         (Inr (if (case ml of None \<Rightarrow> True | Some m \<Rightarrow> gain_of sh < m)
               then (Suc j, Some (gain_of sh), int j) else (Suc j, ml, mi)), h)"
proof -
  have r1: "row_get a (Suc 0) h = (Inr (Intg (share_qty sh)), h)"
    using row_get_run [OF assms, of "Suc 0"] by (simp add: row_cells_def)
  have r2: "row_get a 2 h = (Inr (Flt (share_exact sh)), h)"
    using row_get_run [OF assms, of 2] by (simp add: row_cells_def)
  show ?thesis
    by (simp add: scan_gain_body_def bind_def r1 r2 gain_of_def Let_def split: option.splits)
qed

lemma scan_min_foldM:
  assumes "list_all2 (\<lambda>a sh. \<forall>j ml mi. body (j, ml, mi) a h =
              (Inr (if c sh \<and> (case ml of None \<Rightarrow> True | Some m \<Rightarrow> f sh < m)
                    then (Suc j, Some (f sh), int j) else (Suc j, ml, mi)), h)) as ss"
  shows "\<exists>ml'. foldM body (j, ml, mi) as h = (Inr (j + length as, ml', scan_min c f ss j ml mi), h)"
  using assms
proof (induction as ss arbitrary: j ml mi rule: list_all2_induct)
  case Nil
  then show ?case by simp
next
  case (Cons a as sh ss)
  show ?case
  proof (cases "c sh \<and> (case ml of None \<Rightarrow> True | Some m \<Rightarrow> f sh < m)")
    case True
    with Cons.hyps(1) have "body (j, ml, mi) a h = (Inr (Suc j, Some (f sh), int j), h)"
      by simp
    with Cons.IH [of "Suc j" "Some (f sh)" "int j"] True show ?thesis
      by auto
  next
    case False
    with Cons.hyps(1) have "body (j, ml, mi) a h = (Inr (Suc j, ml, mi), h)"
      by auto
    with Cons.IH [of "Suc j" ml mi] False show ?thesis
      by auto
  qed
qed

lemma rows_inv_rows:
  "rows_inv h as pas ss \<Longrightarrow> list_all2 (\<lambda>a sh. \<exists>pa. holds_row h a (row_cells pa sh)) as ss"
  by (auto simp: rows_inv_def list_all2_conv_all_nth)

lemma scan_loss_st_run:
  assumes "rows_inv h as pas ss"
  shows "\<exists>ml'. foldM scan_loss_body (0, None, - 1) as h =
           (Inr (length as, ml', scan_loss ss 0 None (- 1)), h)"
proof -
  have "list_all2 (\<lambda>a sh. \<forall>j ml mi. scan_loss_body (j, ml, mi) a h =
          (Inr (if 0 < share_qty sh \<and> (case ml of None \<Rightarrow> True | Some m \<Rightarrow> loss_of sh < m)
                then (Suc j, Some (loss_of sh), int j) else (Suc j, ml, mi)), h)) as ss"
    by (rule list_all2_mono [OF rows_inv_rows [OF assms]]) (auto simp: scan_loss_body_run)
  from scan_min_foldM [of scan_loss_body h "\<lambda>sh. 0 < share_qty sh" loss_of as ss 0 None "- 1", OF this]
  show ?thesis by (simp add: scan_loss_scan_min)
qed

lemma scan_gain_st_run:
  assumes "rows_inv h as pas ss"
  shows "\<exists>ml'. foldM scan_gain_body (0, None, - 1) as h =
           (Inr (length as, ml', scan_gain ss 0 None (- 1)), h)"
proof -
  have "list_all2 (\<lambda>a sh. \<forall>j ml mi. scan_gain_body (j, ml, mi) a h =
          (Inr (if True \<and> (case ml of None \<Rightarrow> True | Some m \<Rightarrow> gain_of sh < m)
                then (Suc j, Some (gain_of sh), int j) else (Suc j, ml, mi)), h)) as ss"
    by (rule list_all2_mono [OF rows_inv_rows [OF assms]]) (auto simp: scan_gain_body_run)
  from scan_min_foldM [of scan_gain_body h "\<lambda>sh. True" gain_of as ss 0 None "- 1", OF this]
  show ?thesis by (simp add: scan_gain_scan_min)
qed

lemma bump_share_st_run:
  assumes inv: "rows_inv h as pas ss" and i: "i < length ss"
  shows "\<exists>h'. bump_share_st as (int i) k h = (Inr (), h') \<and>
              rows_inv h' as pas (ss[i := add_share k (ss ! i)])"
proof -
  let ?a = "as ! i"
  let ?h' = "h[?a := RowObj (row_cells (pas ! i) (add_share k (ss ! i)))]"
  from inv i have row: "holds_row h ?a (row_cells (pas ! i) (ss ! i))"
    and len: "length as = length ss" "length pas = length ss" and dist: "distinct as"
    by (simp_all add: rows_inv_def)
  have get: "row_get ?a (Suc 0) h = (Inr (Intg (share_qty (ss ! i))), h)"
    using row_get_run [OF row, of "Suc 0"] by (simp add: row_cells_def)
  have set: "row_set ?a (Suc 0) (Intg (share_qty (ss ! i) + k)) h = (Inr (), ?h')"
    using row_set_run [OF row, of "Suc 0" "Intg (share_qty (ss ! i) + k)"]
    by (simp add: row_cells_def)
  have run: "bump_share_st as (int i) k h = (Inr (), ?h')"
    using i len by (simp add: bump_share_st_def Let_def bind_def get set)
  have "rows_inv ?h' as pas (ss[i := add_share k (ss ! i)])"
    unfolding rows_inv_def
  proof (intro conjI allI impI)
    show "distinct as" by (rule dist)
    show "length as = length (ss[i := add_share k (ss ! i)])" using len by simp
    show "length pas = length (ss[i := add_share k (ss ! i)])" using len by simp
  next
    fix j assume "j < length (ss[i := add_share k (ss ! i)])"
    then have j: "j < length ss" by simp
    from inv j have rj: "holds_row h (as ! j) (row_cells (pas ! j) (ss ! j))"
      and pj: "holds_participant h (pas ! j) (fst (ss ! j))"
      by (simp_all add: rows_inv_def)
    show "holds_row ?h' (as ! j) (row_cells (pas ! j) (ss[i := add_share k (ss ! i)] ! j))"
    proof (cases "j = i")
      case True
      with row i show ?thesis by (simp add: holds_row_def)
    next
      case False
      with dist i j len have "as ! j \<noteq> as ! i" by (simp add: nth_eq_iff_index_eq)
      with rj False show ?thesis by (simp add: holds_row_def)
    qed
    have "pas ! j \<noteq> ?a"
      using pj row by (auto simp: holds_participant_def holds_row_def)
    with pj show "holds_participant ?h' (pas ! j) (fst (ss[i := add_share k (ss ! i)] ! j))"
      using i by (cases "j = i") (simp_all add: holds_participant_def)
  qed
  with run show ?thesis by blast
qed

lemma bump_share_st_none: "bump_share_st as (- 1) k h = (Inr (), h)"
  by (simp add: bump_share_st_def)

lemma decrement_step_st_run:
  assumes "rows_inv h as pas ss"
  shows "\<exists>h'. decrement_step_st as h = (Inr (), h') \<and> rows_inv h' as pas (decrement_step ss)"
proof -
  from scan_loss_st_run [OF assms] obtain ml' where
    scan: "foldM scan_loss_body (0, None, - 1) as h = (Inr (length as, ml', scan_loss ss 0 None (- 1)), h)"
    by blast
  then have step: "decrement_step_st as h = bump_share_st as (scan_loss ss 0 None (- 1)) (- 1) h"
    by (simp add: decrement_step_st_def bind_def)
  from scan_min_initial [of "\<lambda>sh. 0 < share_qty sh" loss_of ss]
  show ?thesis
  proof (elim disjE exE conjE)
    assume "scan_min (\<lambda>sh. 0 < share_qty sh) loss_of ss 0 None (- 1) = - 1"
    then have "scan_loss ss 0 None (- 1) = - 1" by (simp add: scan_loss_scan_min)
    with step assms show ?thesis
      by (simp add: bump_share_st_none decrement_step_def)
  next
    fix i
    assume "scan_min (\<lambda>sh. 0 < share_qty sh) loss_of ss 0 None (- 1) = int i"
      and "first_argmin (\<lambda>sh. 0 < share_qty sh) loss_of ss i"
    then have idx: "scan_loss ss 0 None (- 1) = int i" and i: "i < length ss"
      by (simp_all add: scan_loss_scan_min first_argmin_def)
    from bump_share_st_run [OF assms i, of "- 1"] step idx show ?thesis
      by (simp add: decrement_step_def)
  qed
qed

lemma increment_step_st_run:
  assumes "rows_inv h as pas ss"
  shows "\<exists>h'. increment_step_st as h = (Inr (), h') \<and> rows_inv h' as pas (increment_step ss)"
proof -
  from scan_gain_st_run [OF assms] obtain ml' where
    scan: "foldM scan_gain_body (0, None, - 1) as h = (Inr (length as, ml', scan_gain ss 0 None (- 1)), h)"
    by blast
  then have step: "increment_step_st as h = bump_share_st as (scan_gain ss 0 None (- 1)) 1 h"
    by (simp add: increment_step_st_def bind_def)
  from scan_min_initial [of "\<lambda>sh. True" gain_of ss]
  show ?thesis
  proof (elim disjE exE conjE)
    assume "scan_min (\<lambda>sh. True) gain_of ss 0 None (- 1) = - 1"
    then have "scan_gain ss 0 None (- 1) = - 1" by (simp add: scan_gain_scan_min)
    with step assms show ?thesis
      by (simp add: bump_share_st_none increment_step_def)
  next
    fix i
    assume "scan_min (\<lambda>sh. True) gain_of ss 0 None (- 1) = int i"
      and "first_argmin (\<lambda>sh. True) gain_of ss i"
    then have idx: "scan_gain ss 0 None (- 1) = int i" and i: "i < length ss"
      by (simp_all add: scan_gain_scan_min first_argmin_def)
    from bump_share_st_run [OF assms i, of 1] step idx show ?thesis
      by (simp add: increment_step_def)
  qed
qed

lemma repeatM_run:
  assumes step: "\<And>h ss. rows_inv h as pas ss \<Longrightarrow>
                   \<exists>h'. m h = (Inr (), h') \<and> rows_inv h' as pas (f ss)"
    and inv: "rows_inv h as pas ss"
  shows "\<exists>h'. repeatM n m h = (Inr (), h') \<and> rows_inv h' as pas ((f ^^ n) ss)"
  using inv
proof (induction n arbitrary: h ss)
  case 0
  then show ?case by simp
next
  case (Suc n)
  from step [OF Suc.prems] obtain h1 where m: "m h = (Inr (), h1)"
    and inv1: "rows_inv h1 as pas (f ss)" by blast
  from Suc.IH [OF inv1] obtain h' where "repeatM n m h1 = (Inr (), h')"
    and "rows_inv h' as pas ((f ^^ n) (f ss))" by blast
  with m show ?case by (simp add: funpow_swap1)
qed

lemma correction_st_run:
  assumes "rows_inv h as pas ss"
  shows "\<exists>h'. (if total_assigned ss - t \<noteq> 0 then
                 (if 0 < total_assigned ss - t
                  then repeatM (nat \<bar>total_assigned ss - t\<bar>) (decrement_step_st as)
                  else repeatM (nat \<bar>total_assigned ss - t\<bar>) (increment_step_st as))
               else ret ()) h = (Inr (), h') \<and>
              rows_inv h' as pas (correct_shares t ss)"
proof -
  consider "total_assigned ss - t = 0" | "0 < total_assigned ss - t" | "total_assigned ss - t < 0"
    by linarith
  then show ?thesis
  proof cases
    case 1
    with assms show ?thesis by (simp add: correct_shares_def)
  next
    case 2
    from repeatM_run [of as pas "decrement_step_st as" decrement_step, OF decrement_step_st_run assms]
    obtain h' where "repeatM (nat \<bar>total_assigned ss - t\<bar>) (decrement_step_st as) h = (Inr (), h')"
      and "rows_inv h' as pas ((decrement_step ^^ nat \<bar>total_assigned ss - t\<bar>) ss)" by blast
    with 2 show ?thesis by (auto simp: correct_shares_def Let_def)
  next
    case 3
    from repeatM_run [of as pas "increment_step_st as" increment_step, OF increment_step_st_run assms]
    obtain h' where "repeatM (nat \<bar>total_assigned ss - t\<bar>) (increment_step_st as) h = (Inr (), h')"
      and "rows_inv h' as pas ((increment_step ^^ nat \<bar>total_assigned ss - t\<bar>) ss)" by blast
    with 3 show ?thesis by (auto simp: correct_shares_def Let_def)
  qed
qed

lemma holds_participant_append: "holds_participant h a p \<Longrightarrow> holds_participant (h @ k) a p"
  by (simp add: holds_participant_def nth_append)

lemma referenced_append: "referenced h aps \<Longrightarrow> referenced (h @ k) aps"
  by (simp add: referenced_def list_all_iff holds_participant_append)

lemma new_shares_run:
  assumes "referenced h ord" and "numeric (map snd ord)" and "t \<noteq> 0"
  shows "mapM (new_share_st t q) (map fst ord) h =
         (Inr [length h ..< length h + length ord], h @ map (raw_row t q) ord)"
  using assms(1,2)
proof (induction ord arbitrary: h)
  case Nil
  then show ?case by simp
next
  case (Cons ap ord)
  then have hp: "holds_participant h (fst ap) (snd ap)" and rest: "referenced h ord"
    and num: "damage (snd ap) = Num (weight (snd ap))" and nums: "numeric (map snd ord)"
    by (simp_all add: referenced_def numeric_def damage_numeric)
  have one: "new_share_st t q (fst ap) h = (Inr (length h), h @ [raw_row t q ap])"
    using get_damage_run [OF hp] num assms(3)
    by (simp add: new_share_st_def bind_def alloc_def raw_row_def exact_of_def Let_def)
  have ih: "mapM (new_share_st t q) (map fst ord) (h @ [raw_row t q ap]) =
        (Inr [length (h @ [raw_row t q ap]) ..< length (h @ [raw_row t q ap]) + length ord],
         (h @ [raw_row t q ap]) @ map (raw_row t q) ord)"
    by (rule Cons.IH [OF referenced_append [OF rest] nums])
  have e: "[length h ..< length h + length (ap # ord)] =
           length h # [length (h @ [raw_row t q ap]) ..< length (h @ [raw_row t q ap]) + length ord]"
    by (subst upt_rec) simp
  show ?case
    unfolding e by (simp add: one ih)
qed

lemma round_shares_run:
  assumes "distinct as"
    and "list_all2 (\<lambda>a c. holds_row h a [Ref (fst c), Flt (snd c), Flt (snd c)]) as cs"
  shows "\<exists>h'. foldM round_share_st acc as h =
                 (Inr (acc + sum_list (map (\<lambda>c. py_round (snd c)) cs)), h') \<and>
              length h' = length h \<and>
              (\<forall>b<length h. b \<notin> set as \<longrightarrow> h' ! b = h ! b) \<and>
              list_all2 (\<lambda>a c. holds_row h' a [Ref (fst c), Intg (py_round (snd c)), Flt (snd c)]) as cs"
  using assms
proof (induction as arbitrary: cs h acc)
  case Nil
  then show ?case by simp
next
  case (Cons a as)
  from Cons.prems(2) obtain c cs' where cs: "cs = c # cs'"
    and row: "holds_row h a [Ref (fst c), Flt (snd c), Flt (snd c)]"
    and rows: "list_all2 (\<lambda>a c. holds_row h a [Ref (fst c), Flt (snd c), Flt (snd c)]) as cs'"
    by (auto simp: list_all2_Cons1)
  let ?h1 = "h[a := RowObj [Ref (fst c), Intg (py_round (snd c)), Flt (snd c)]]"
  from Cons.prems(1) have a: "a \<notin> set as" and dist: "distinct as" by simp_all
  have get: "row_get a (Suc 0) h = (Inr (Flt (snd c)), h)"
    using row_get_run [OF row, of "Suc 0"] by simp
  have set: "row_set a (Suc 0) (Intg (py_round (snd c))) h = (Inr (), ?h1)"
    using row_set_run [OF row, of "Suc 0" "Intg (py_round (snd c))"] by simp
  have one: "round_share_st acc a h = (Inr (acc + py_round (snd c)), ?h1)"
    by (simp add: round_share_st_def bind_def get set Let_def)
  have rows1: "list_all2 (\<lambda>a c. holds_row ?h1 a [Ref (fst c), Flt (snd c), Flt (snd c)]) as cs'"
    unfolding list_all2_conv_all_nth
  proof (intro conjI allI impI)
    show "length as = length cs'" using rows by (rule list_all2_lengthD)
  next
    fix i assume i: "i < length as"
    with rows have r: "holds_row h (as ! i) [Ref (fst (cs' ! i)), Flt (snd (cs' ! i)), Flt (snd (cs' ! i))]"
      by (simp add: list_all2_conv_all_nth)
    from i a have "as ! i \<noteq> a" by (metis nth_mem)
    with r show "holds_row ?h1 (as ! i) [Ref (fst (cs' ! i)), Flt (snd (cs' ! i)), Flt (snd (cs' ! i))]"
      by (simp add: holds_row_def)
  qed
  from Cons.IH [OF dist rows1, of "acc + py_round (snd c)"] obtain h' where
    run: "foldM round_share_st (acc + py_round (snd c)) as ?h1 =
            (Inr (acc + py_round (snd c) + sum_list (map (\<lambda>c. py_round (snd c)) cs')), h')"
    and len: "length h' = length ?h1"
    and frame: "\<forall>b<length ?h1. b \<notin> set as \<longrightarrow> h' ! b = ?h1 ! b"
    and rows': "list_all2 (\<lambda>a c. holds_row h' a [Ref (fst c), Intg (py_round (snd c)), Flt (snd c)]) as cs'"
    by blast
  from row have alt: "a < length h" by (simp add: holds_row_def)
  have head: "holds_row h' a [Ref (fst c), Intg (py_round (snd c)), Flt (snd c)]"
    using frame a alt len by (simp add: holds_row_def)
  have frame': "\<forall>b<length h. b \<notin> set (a # as) \<longrightarrow> h' ! b = h ! b"
    using frame by simp
  from one run have "foldM round_share_st acc (a # as) h =
      (Inr (acc + sum_list (map (\<lambda>c. py_round (snd c)) (c # cs'))), h')"
    by (simp add: add.assoc)
  with len frame' head rows' cs show ?case by auto
qed

lemma mapM_reads_rel:
  "list_all2 (\<lambda>x y. f x h = (Inr y, h)) xs ys \<Longrightarrow> mapM f xs h = (Inr ys, h)"
  by (induction xs ys rule: list_all2_induct) simp_all

lemma results_run:
  assumes "rows_inv h as pas ss"
  shows "mapM result_row_st as h = (Inr (map result_of ss), h)"
proof (rule mapM_reads_rel)
  show "list_all2 (\<lambda>x y. result_row_st x h = (Inr y, h)) as (map result_of ss)"
    unfolding list_all2_conv_all_nth
  proof (intro conjI allI impI)
    show "length as = length (map result_of ss)" using assms by (simp add: rows_inv_def)
  next
    fix i assume "i < length as"
    with assms have i: "i < length ss" by (simp add: rows_inv_def)
    with assms have row: "holds_row h (as ! i) (row_cells (pas ! i) (ss ! i))"
      and p: "holds_participant h (pas ! i) (fst (ss ! i))"
      by (simp_all add: rows_inv_def)
    from get_row_run [OF row] get_participant_run [OF p]
    have "result_row_st (as ! i) h = (Inr (result_of (ss ! i)), h)"
      by (simp add: result_row_st_def bind_def row_cells_def result_of_def)
    with i show "result_row_st (as ! i) h = (Inr (map result_of ss ! i), h)" by simp
  qed
qed

lemma total_assigned_map:
  "total_assigned (map (\<lambda>x. (f x, g x, k x)) xs) = sum_list (map g xs)"
  by (simp add: total_assigned_def comp_def)

lemma exact_shares_map_snd:
  "exact_shares (map (\<lambda>p. (p, weight p)) (map snd aps)) t q =
   map (\<lambda>ap. (snd ap, exact_of t q ap)) (sorted_desc (\<lambda>ap. weight (snd ap)) aps)"
proof -
  have "map (\<lambda>p. (p, weight p)) (map snd aps) = map (\<lambda>ap. (snd ap, weight (snd ap))) aps"
    by simp
  then show ?thesis
    by (simp add: exact_shares_def sorted_desc_map comp_def exact_of_def)
qed

lemma as_distribution_sorted:
  "as_distribution (sort_key fst (map row ss)) = sort_key fst (map result_of ss)"
proof -
  have "sort_key fst (map result_of ss) = map result_of (sort_key (\<lambda>sh. pid (fst sh)) ss)"
    by (simp add: sort_key_map result_of_def)
  moreover have "sort_key fst (map row ss) = map row (sort_key (\<lambda>sh. pid (fst sh)) ss)"
    by (simp add: sort_key_map row_def)
  ultimately show ?thesis
    by (simp add: as_distribution_def row_def result_of_def)
qed

lemma calculate_integer_distribution_st_run:
  assumes ref: "referenced h aps" and num: "numeric (map snd aps)"
  shows "\<exists>h'. calculate_integer_distribution_st (map fst aps) t q h =
           (Inr (as_distribution (calculate_integer_distribution (map snd aps) t q)), h')"
proof (cases "aps = [] \<or> t = 0")
  case True
  then have "calculate_integer_distribution (map snd aps) t q = []"
    by (intro calculate_integer_distribution_empty) auto
  moreover from True have "calculate_integer_distribution_st (map fst aps) t q h = (Inr [], h)"
    by (auto simp: calculate_integer_distribution_st_def try_except_def)
  ultimately show ?thesis by (simp add: as_distribution_def)
next
  case False
  then have ne: "aps \<noteq> []" and t: "t \<noteq> 0" by simp_all
  let ?ord = "sorted_desc (\<lambda>ap. weight (snd ap)) aps"
  let ?as = "[length h ..< length h + length ?ord]"
  let ?pas = "map fst ?ord"
  let ?ss0 = "map (\<lambda>ap. (snd ap, py_round (exact_of t q ap), exact_of t q ap)) ?ord"
  let ?h1 = "h @ map (raw_row t q) ?ord"
  let ?cs = "map (\<lambda>ap. (fst ap, exact_of t q ap)) ?ord"
  have set_ord: "set ?ord = set aps" by (simp add: sorted_desc_def)
  have ref_ord: "referenced h ?ord"
    using ref set_ord by (simp add: referenced_def list_all_iff)
  have num_ord: "numeric (map snd ?ord)"
    using num set_ord by (simp add: numeric_def list_all_iff)
  have sorted_run: "sorted_by_damage_st (map fst aps) h = (Inr ?pas, h)"
    using ref num by (rule sorted_by_damage_st_run)
  have alloc_run: "mapM (new_share_st t q) ?pas h = (Inr ?as, ?h1)"
    using ref_ord num_ord t by (rule new_shares_run)
  have raw: "list_all2 (\<lambda>a c. holds_row ?h1 a [Ref (fst c), Flt (snd c), Flt (snd c)]) ?as ?cs"
    by (simp add: list_all2_conv_all_nth holds_row_def nth_append raw_row_def)
  from round_shares_run [OF _ raw, of 0] obtain h2 where
    round_run: "foldM round_share_st 0 ?as ?h1 =
                  (Inr (sum_list (map (\<lambda>c. py_round (snd c)) ?cs)), h2)"
    and len2: "length h2 = length ?h1"
    and frame2: "\<forall>b<length ?h1. b \<notin> set ?as \<longrightarrow> h2 ! b = ?h1 ! b"
    and rows2: "list_all2 (\<lambda>a c. holds_row h2 a [Ref (fst c), Intg (py_round (snd c)), Flt (snd c)]) ?as ?cs"
    by auto
  have assigned: "sum_list (map (\<lambda>c. py_round (snd c)) ?cs) = total_assigned ?ss0"
    by (simp add: total_assigned_map comp_def)
  have inv2: "rows_inv h2 ?as ?pas ?ss0"
    unfolding rows_inv_def
  proof (intro conjI allI impI)
    fix i assume "i < length ?ss0"
    then have i: "i < length ?ord" by simp
    from rows2 i show "holds_row h2 (?as ! i) (row_cells (?pas ! i) (?ss0 ! i))"
      by (simp add: list_all2_conv_all_nth row_cells_def share_qty_def share_exact_def)
    from ref_ord i have hp: "holds_participant h (fst (?ord ! i)) (snd (?ord ! i))"
      by (simp add: referenced_def list_all_length)
    then have "fst (?ord ! i) < length h" by (simp add: holds_participant_def)
    with frame2 have "h2 ! fst (?ord ! i) = h ! fst (?ord ! i)"
      by (simp add: nth_append)
    with hp len2 i show "holds_participant h2 (?pas ! i) (fst (?ss0 ! i))"
      by (simp add: holds_participant_def)
  qed simp_all
  from correction_st_run [OF inv2, of "py_int q"] obtain h3 where
    corr_run: "(if total_assigned ?ss0 - py_int q \<noteq> 0 then
                 (if 0 < total_assigned ?ss0 - py_int q
                  then repeatM (nat \<bar>total_assigned ?ss0 - py_int q\<bar>) (decrement_step_st ?as)
                  else repeatM (nat \<bar>total_assigned ?ss0 - py_int q\<bar>) (increment_step_st ?as))
               else ret ()) h2 = (Inr (), h3)"
    and inv3: "rows_inv h3 ?as ?pas (correct_shares (py_int q) ?ss0)"
    by blast
  have res_run: "mapM result_row_st ?as h3 =
                 (Inr (map result_of (correct_shares (py_int q) ?ss0)), h3)"
    using inv3 by (rule results_run)
  have cond: "\<not> (map fst aps = [] \<or> t = 0)" using ne t by simp
  note round_run' = round_run [unfolded assigned]
  have store: "calculate_integer_distribution_st (map fst aps) t q h =
               (Inr (sort_key fst (map result_of (correct_shares (py_int q) ?ss0))), h3)"
    unfolding calculate_integer_distribution_st_def Let_def try_except_def
    by (simp only: cond if_False bind_def sorted_run alloc_run round_run' corr_run res_run
          prod.case sum.case ret_run)
  have "rounded_shares (exact_shares (map (\<lambda>p. (p, weight p)) (map snd aps)) t q) = ?ss0"
    unfolding exact_shares_map_snd by (simp add: rounded_shares_def comp_def)
  then have "integer_shares (map snd aps) t q = correct_shares (py_int q) ?ss0"
    by (simp only: integer_shares_def)
  then have "calculate_integer_distribution (map snd aps) t q =
             sort_key fst (map row (correct_shares (py_int q) ?ss0))"
    using calculate_integer_distribution_numeric [OF num _ t, of q] ne by simp
  with store show ?thesis
    by (simp add: as_distribution_sorted)
qed

lemma numeric_filter_active:
  "numeric (map snd (filter (\<lambda>ap. enabled (snd ap) \<and> \<not> is_hash (damage (snd ap))) aps))"
  by (simp add: numeric_def list_all_iff)

lemma numeric_subset: "numeric ps \<Longrightarrow> set qs \<subseteq> set ps \<Longrightarrow> numeric qs"
  by (auto simp: numeric_def list_all_iff)

text \<open>
  On a store that holds \<^verbatim>\<open>self.participants\<close>, its participants and the prize, the
  program over the store returns the result of \<^const>\<open>calculate_distribution\<close> on the
  participants and the prize it finds there.
\<close>

theorem store_level_result:
  assumes self: "self_participants < length h" "h ! self_participants = ListObj (map fst aps)"
    and ref: "referenced h aps"
    and prize: "prize_ref < length h" "h ! prize_ref = PrizeObj pr"
  shows "\<exists>h'. calculate_distribution_st self_participants integer_only prize_ref h =
           (Inr (calculate_distribution (map snd aps) integer_only pr), h')"
proof -
  let ?act = "filter (\<lambda>ap. enabled (snd ap) \<and> \<not> is_hash (damage (snd ap))) aps"
  let ?A = "active_participants (map snd aps)"
  let ?q = "quantity pr"
  have A: "?A = map snd ?act" by (rule active_participants_map_snd)
  have ref_act: "referenced h ?act" using ref by (rule referenced_subset) simp
  have num_act: "numeric (map snd ?act)" by (rule numeric_filter_active)
  have get_list_run: "get_list self_participants h = (Inr (map fst aps), h)"
    using self by (simp add: get_list_def bind_def lookup_def)
  have get_prize_run: "get_prize prize_ref h = (Inr pr, h)"
    using prize by (simp add: get_prize_def bind_def lookup_def)
  have active_run: "active_participants_st (map fst aps) h = (Inr (map fst ?act), h)"
    using ref by (rule active_participants_st_run)
  have sum_run: "sum_damage_st (map fst ?act) h = (Inr (total_weight ?A), h)"
    using sum_damage_st_run [OF ref_act] py_sum_numeric [OF num_act] by (simp add: A)
  have py_sum_A: "py_sum (map damage ?A) = Inr (total_weight ?A)"
    using py_sum_numeric [OF num_act] by (simp add: A)
  show ?thesis
  proof (cases "?act = [] \<or> total_weight ?A = 0")
    case True
    then have "?A = [] \<or> total_weight ?A = 0" by (simp add: A)
    then have pure: "calculate_distribution (map snd aps) integer_only pr = []"
      by (simp add: calculate_distribution_def calculate_distribution_guard)
    from True have "calculate_distribution_st self_participants integer_only prize_ref h = (Inr [], h)"
      unfolding calculate_distribution_st_def try_except_def
      by (auto simp: bind_def get_list_run active_run sum_run)
    with pure show ?thesis by simp
  next
    case False
    then have ne: "?act \<noteq> []" and tw: "total_weight ?A \<noteq> 0" by simp_all
    then have neA: "?A \<noteq> []" by (simp add: A)
    show ?thesis
    proof (cases "is_special pr")
      case special: True
      let ?byid = "sort_key (\<lambda>ap. pid (snd ap)) ?act"
      let ?tops = "py_prefix (top_winners pr) ?byid"
      have byid_run: "sorted_by_id_st (map fst ?act) h = (Inr (map fst ?byid), h)"
        using ref_act by (rule sorted_by_id_st_run)
      have tops: "top_participants pr ?A = map snd ?tops"
        by (simp add: top_participants_def A sort_key_map py_prefix_map)
      have sub: "set ?tops \<subseteq> set ?act"
        using set_py_prefix [of "top_winners pr" ?byid] by simp
      have ref_tops: "referenced h ?tops" using ref_act sub by (rule referenced_subset)
      have "set (map snd ?tops) \<subseteq> set (map snd ?act)"
        using sub by (simp only: set_map image_mono)
      with num_act have num_tops: "numeric (map snd ?tops)"
        by (rule numeric_subset)
      have wsum_run: "sum_damage_st (map fst ?tops) h = (Inr (total_weight (map snd ?tops)), h)"
        using sum_damage_st_run [OF ref_tops] py_sum_numeric [OF num_tops] by simp
      have py_sum_tops: "py_sum (map damage (map snd ?tops)) = Inr (total_weight (map snd ?tops))"
        using py_sum_numeric [OF num_tops] by simp
      have E: "eligible_set pr (map snd aps) = map snd ?tops"
        using special by (simp only: eligible_set_def tops if_True)
      show ?thesis
      proof (cases integer_only)
        case True
        from calculate_integer_distribution_st_run [OF ref_tops num_tops, of "total_weight (map snd ?tops)" ?q]
        obtain h' where int_run:
          "calculate_integer_distribution_st (map fst ?tops) (total_weight (map snd ?tops)) ?q h =
           (Inr (as_distribution (calculate_integer_distribution (map snd ?tops)
                   (total_weight (map snd ?tops)) ?q)), h')"
          by blast
        have pure: "calculate_distribution (map snd aps) integer_only pr =
              as_distribution (calculate_integer_distribution (map snd ?tops)
                   (total_weight (map snd ?tops)) ?q)"
          using True calculate_distribution_integer [OF neA tw, of pr]
          by (simp only: E)
        have "calculate_distribution_st self_participants integer_only prize_ref h =
              (Inr (as_distribution (calculate_integer_distribution (map snd ?tops)
                   (total_weight (map snd ?tops)) ?q)), h')"
          unfolding calculate_distribution_st_def try_except_def Let_def
          using True special ne tw
          by (simp add: bind_def get_list_run active_run sum_run get_prize_run byid_run
              py_prefix_map wsum_run int_run)
        with pure show ?thesis by simp
      next
        case False
        have real_run: "mapM (real_share_st (total_weight (map snd ?tops)) ?q) (map fst ?tops) h =
              (real_distribution (map snd ?tops) (total_weight (map snd ?tops)) ?q, h)"
          using ref_tops by (rule real_distribution_st_run)
        have pure: "calculate_distribution (map snd aps) integer_only pr =
              (case real_distribution (map snd ?tops) (total_weight (map snd ?tops)) ?q of
                 Inl e \<Rightarrow> [] | Inr r \<Rightarrow> r)"
          using False calculate_distribution_real_body [OF neA tw, of pr]
            sort_key_pid_eligible [OF special, of "map snd aps"]
          by (simp only: calculate_distribution_def E)
        have "calculate_distribution_st self_participants integer_only prize_ref h =
              (Inr (case real_distribution (map snd ?tops) (total_weight (map snd ?tops)) ?q of
                 Inl e \<Rightarrow> [] | Inr r \<Rightarrow> r), h)"
          unfolding calculate_distribution_st_def try_except_def Let_def
          using False special ne tw
          by (simp add: bind_def get_list_run active_run sum_run get_prize_run byid_run
              py_prefix_map wsum_run real_run split: sum.splits)
        with pure show ?thesis by simp
      qed
    next
      case normal: False
      have E: "eligible_set pr (map snd aps) = ?A"
        using normal by (simp only: eligible_set_def if_False)
      show ?thesis
      proof (cases integer_only)
        case True
        obtain h' where int_run:
          "calculate_integer_distribution_st (map fst ?act) (total_weight ?A) ?q h =
           (Inr (as_distribution (calculate_integer_distribution ?A (total_weight ?A) ?q)), h')"
          using calculate_integer_distribution_st_run [OF ref_act num_act, of "total_weight ?A" ?q]
          unfolding A by blast
        have pure: "calculate_distribution (map snd aps) integer_only pr =
              as_distribution (calculate_integer_distribution ?A (total_weight ?A) ?q)"
          using True calculate_distribution_integer [OF neA tw, of pr]
          by (simp only: E)
        have "calculate_distribution_st self_participants integer_only prize_ref h =
              (Inr (as_distribution (calculate_integer_distribution ?A (total_weight ?A) ?q)), h')"
          unfolding calculate_distribution_st_def try_except_def Let_def
          using True normal ne tw
          by (simp add: bind_def get_list_run active_run sum_run get_prize_run int_run)
        with pure show ?thesis by simp
      next
        case False
        let ?byid = "sort_key (\<lambda>ap. pid (snd ap)) ?act"
        have byid_run: "sorted_by_id_st (map fst ?act) h = (Inr (map fst ?byid), h)"
          using ref_act by (rule sorted_by_id_st_run)
        have ref_byid: "referenced h ?byid" using ref_act by (rule referenced_subset) simp
        have real_run: "mapM (real_share_st (total_weight ?A) ?q) (map fst ?byid) h =
              (real_distribution (map snd ?byid) (total_weight ?A) ?q, h)"
          using ref_byid by (rule real_distribution_st_run)
        have sorted_A: "sort_key pid ?A = map snd ?byid"
          by (simp add: A sort_key_map)
        have pure: "calculate_distribution (map snd aps) integer_only pr =
              (case real_distribution (map snd ?byid) (total_weight ?A) ?q of
                 Inl e \<Rightarrow> [] | Inr r \<Rightarrow> r)"
          using False calculate_distribution_real_body [OF neA tw, of pr]
          by (simp only: calculate_distribution_def E sorted_A)
        have "calculate_distribution_st self_participants integer_only prize_ref h =
              (Inr (case real_distribution (map snd ?byid) (total_weight ?A) ?q of
                 Inl e \<Rightarrow> [] | Inr r \<Rightarrow> r), h)"
          unfolding calculate_distribution_st_def try_except_def Let_def
          using False normal ne tw
          by (simp add: bind_def get_list_run active_run sum_run get_prize_run byid_run
              real_run split: sum.splits)
        with pure show ?thesis by simp
      qed
    qed
  qed
qed

section \<open>The claims\<close>

subsection \<open>C1: the integer allocations add up to the converted quantity\<close>

text \<open>
  Claim C1 says that in integer mode, when the eligible set (after the special-prize
  restriction) has positive total weight, the allocated quantities add up to
  \<^verbatim>\<open>round(prize.quantity)\<close>. The code computes its target as \<^verbatim>\<open>int(quantity)\<close>, which
  truncates. For a single participant and the quantity 2.75 the result adds up to 2,
  while the quantity rounds to 3 under either tie rule.
\<close>

theorem integer_total_is_not_the_rounded_quantity:
  "nonneg_weights one_only \<and>
   0 < total_weight (eligible_set (mk_prize (11 / 4) False 1) one_only) \<and>
   allocated_total (calculate_distribution one_only True (mk_prize (11 / 4) False 1)) \<noteq>
     of_int (py_round (quantity (mk_prize (11 / 4) False 1))) \<and>
   allocated_total (calculate_distribution one_only True (mk_prize (11 / 4) False 1)) \<noteq>
     of_int (round_half_up (quantity (mk_prize (11 / 4) False 1)))"
  by code_simp

text \<open>
  C1 as amended: for non-negative weights, a non-negative quantity and an eligible set of
  positive total weight, the integer allocations add up to \<^verbatim>\<open>int(prize.quantity)\<close>, the
  quantity truncated toward zero; this is \<^verbatim>\<open>round(prize.quantity)\<close> whenever the quantity
  is a whole number.
\<close>

theorem integer_mode_conserves_truncated_quantity:
  assumes "nonneg_weights ps" and "0 < total_weight (eligible_set pr ps)"
    and "0 \<le> quantity pr"
  shows "allocated_total (calculate_distribution ps True pr) = of_int (py_int (quantity pr)) \<and>
         (quantity pr \<in> \<int> \<longrightarrow>
            allocated_total (calculate_distribution ps True pr) = of_int (py_round (quantity pr)))"
proof -
  let ?E = "eligible_set pr ps"
  note pos = eligible_positive [OF assms(1,2)]
  have t: "total_weight ?E \<noteq> 0" using assms(2) by simp
  have "calculate_distribution ps True pr =
        as_distribution (sort_key fst (map row (integer_shares ?E (total_weight ?E) (quantity pr))))"
    using pos t
    by (simp add: calculate_distribution_integer calculate_integer_distribution_numeric)
  then have main: "allocated_total (calculate_distribution ps True pr) = of_int (py_int (quantity pr))"
    using pos(3) assms(3)
    by (simp add: allocated_total_integer total_assigned_integer_shares)
  moreover have "quantity pr \<in> \<int> \<Longrightarrow> py_int (quantity pr) = py_round (quantity pr)"
    by (auto elim!: Ints_cases)
  ultimately show ?thesis by simp
qed

theorem integer_mode_conserves_witness:
  "nonneg_weights three_equal \<and>
   0 < total_weight (eligible_set (mk_prize 10 False 1) three_equal) \<and>
   0 \<le> quantity (mk_prize 10 False 1) \<and>
   quantity (mk_prize 10 False 1) \<in> \<int> \<and>
   allocated_total (calculate_distribution three_equal True (mk_prize 10 False 1)) = 10 \<and>
   allocated_total (calculate_distribution three_equal True (mk_prize 10 False 1)) =
     of_int (py_round (quantity (mk_prize 10 False 1)))"
proof -
  have h1: "nonneg_weights three_equal" by code_simp
  have h2: "0 < total_weight (eligible_set (mk_prize 10 False 1) three_equal)" by code_simp
  have h3: "0 \<le> quantity (mk_prize 10 False 1)" by code_simp
  have h4: "quantity (mk_prize 10 False 1) \<in> \<int>" by (simp add: mk_prize_def)
  have v: "py_int (quantity (mk_prize 10 False 1)) = 10" by code_simp
  from integer_mode_conserves_truncated_quantity [OF h1 h2 h3] v h1 h2 h3 h4
  show ?thesis by simp
qed

subsection \<open>C2: proportional shares in ascending order of id\<close>



subsection \<open>C3: the initial rounding\<close>

text \<open>
  Claim C3: the initial integer share is the exact share rounded half up, so an exact
  share whose fractional part is one half goes to the next higher integer. The source
  line says the same in its comment (\<^verbatim>\<open>.5 o piu' va all'intero superiore\<close>), but
  \<^verbatim>\<open>round\<close> resolves a tie to the even neighbour (lemma \<open>py_round_half_up\<close> gives the
  exact difference). With the quantity 5 and two participants of equal damage both exact
  shares are 2.5 and both initial shares are 2, not 3; the correction then makes the
  result 3 and 2.
\<close>

theorem initial_rounding_resolves_ties_to_even:
  "rounded_shares
     (exact_shares [(mk_participant 1 ''Ann'' 1, 1), (mk_participant 2 ''Bob'' 1, 1)] 2 5) =
     [(mk_participant 1 ''Ann'' 1, 2, 5 / 2), (mk_participant 2 ''Bob'' 1, 2, 5 / 2)] \<and>
   round_half_up (5 / 2) = 3 \<and>
   calculate_distribution two_equal True (mk_prize 5 False 1) = [(1, ''Ann'', 3), (2, ''Bob'', 2)]"
  by code_simp

subsection \<open>C4: the winners of a special prize\<close>

text \<open>
  Claim C4 says that for every special prize with \<open>N\<close> winners and every eligible set the
  result holds exactly the \<open>N\<close> eligible participants of lowest id. Where the selected
  winners have total weight zero the result is empty instead: with the damages 0 and 5
  and one winner, the participant of id 1 is selected and nothing is returned, in both
  modes.
\<close>

theorem special_prize_winners_counterexample:
  "is_special (mk_prize 6 True 1) \<and>
   map pid (take 1 (sort_key pid (active_participants zero_first))) = [1] \<and>
   map fst (calculate_distribution zero_first True (mk_prize 6 True 1)) \<noteq>
     map pid (take 1 (sort_key pid (active_participants zero_first))) \<and>
   map fst (calculate_distribution zero_first False (mk_prize 6 True 1)) \<noteq>
     map pid (take 1 (sort_key pid (active_participants zero_first)))"
  by code_simp

text \<open>
  C4 as amended: for a special prize with \<open>N \<ge> 0\<close> winners and non-negative weights, the
  result has at most \<open>N\<close> entries; when the first \<open>N\<close> eligible participants in ascending
  order of id have positive total weight, the ids of the result are exactly theirs; when
  their total weight is zero, the result is empty. No selected participant has a higher
  id than an eligible participant that is not selected.
\<close>

theorem special_prize_winners:
  assumes "is_special pr" and "0 \<le> top_winners pr" and "nonneg_weights ps"
  shows "length (calculate_distribution ps integer_only pr) \<le> nat (top_winners pr) \<and>
         (0 < total_weight (take (nat (top_winners pr)) (sort_key pid (active_participants ps))) \<longrightarrow>
            map fst (calculate_distribution ps integer_only pr) =
              map pid (take (nat (top_winners pr)) (sort_key pid (active_participants ps)))) \<and>
         (total_weight (take (nat (top_winners pr)) (sort_key pid (active_participants ps))) = 0 \<longrightarrow>
            calculate_distribution ps integer_only pr = []) \<and>
         (\<forall>w\<in>set (take (nat (top_winners pr)) (sort_key pid (active_participants ps))).
            \<forall>p\<in>set (active_participants ps).
              p \<notin> set (take (nat (top_winners pr)) (sort_key pid (active_participants ps))) \<longrightarrow>
              pid w \<le> pid p)"
proof -
  let ?W = "take (nat (top_winners pr)) (sort_key pid (active_participants ps))"
  have E: "eligible_set pr ps = ?W"
    using assms(1,2) by (simp add: eligible_set_def top_participants_def py_prefix_def)
  have sk: "sort_key pid ?W = ?W"
    using sort_key_pid_eligible [OF assms(1), of ps] by (simp only: E)
  have ids: "map fst (calculate_distribution ps integer_only pr) = map pid ?W"
    if "0 < total_weight ?W"
  proof -
    from that have "0 < total_weight (eligible_set pr ps)" unfolding E .
    with assms(3) have "map fst (calculate_distribution ps integer_only pr) =
        map pid (sort_key pid (eligible_set pr ps))" by (rule result_ids)
    then show ?thesis by (simp only: E sk)
  qed
  have zw: "calculate_distribution ps integer_only pr = []" if "\<not> 0 < total_weight ?W"
  proof -
    from that have "\<not> 0 < total_weight (eligible_set pr ps)" unfolding E .
    with assms(3) show ?thesis by (rule calculate_distribution_zero_weight)
  qed
  have empty: "total_weight ?W = 0 \<Longrightarrow> calculate_distribution ps integer_only pr = []"
    using zw by simp
  have "length (calculate_distribution ps integer_only pr) \<le> nat (top_winners pr)"
  proof (cases "0 < total_weight ?W")
    case True
    from ids [OF True] have "length (map fst (calculate_distribution ps integer_only pr)) = length ?W"
      by simp
    then show ?thesis by simp
  next
    case False
    then have "calculate_distribution ps integer_only pr = []"
      by (rule zw)
    then show ?thesis by simp
  qed
  moreover have "\<forall>w\<in>set ?W. \<forall>p\<in>set (active_participants ps). p \<notin> set ?W \<longrightarrow> pid w \<le> pid p"
    using sorted_take_drop_le [of pid "sort_key pid (active_participants ps)" _ "nat (top_winners pr)"]
    by simp
  ultimately show ?thesis using ids empty by blast
qed

theorem special_prize_winners_witness:
  "is_special (mk_prize 6 True 2) \<and> 0 \<le> top_winners (mk_prize 6 True 2) \<and>
   nonneg_weights five_ranked \<and>
   0 < total_weight (take (nat (top_winners (mk_prize 6 True 2)))
         (sort_key pid (active_participants five_ranked))) \<and>
   length (calculate_distribution five_ranked True (mk_prize 6 True 2)) \<le> 2 \<and>
   map fst (calculate_distribution five_ranked True (mk_prize 6 True 2)) = [1, 2]"
proof -
  have h1: "is_special (mk_prize 6 True 2)" by code_simp
  have h2: "0 \<le> top_winners (mk_prize 6 True 2)" by code_simp
  have h3: "nonneg_weights five_ranked" by code_simp
  have h4: "0 < total_weight (take (nat (top_winners (mk_prize 6 True 2)))
         (sort_key pid (active_participants five_ranked)))" by code_simp
  have v1: "nat (top_winners (mk_prize 6 True 2)) = 2" by code_simp
  have v2: "map pid (take (nat (top_winners (mk_prize 6 True 2)))
         (sort_key pid (active_participants five_ranked))) = [1, 2]" by code_simp
  from special_prize_winners [OF h1 h2 h3, of True] h4
  have "length (calculate_distribution five_ranked True (mk_prize 6 True 2)) \<le>
          nat (top_winners (mk_prize 6 True 2))"
    and "map fst (calculate_distribution five_ranked True (mk_prize 6 True 2)) =
          map pid (take (nat (top_winners (mk_prize 6 True 2)))
            (sort_key pid (active_participants five_ranked)))"
    by blast+
  with v1 v2 h1 h2 h3 h4 show ?thesis by simp
qed

subsection \<open>C5: one iteration of a correction loop\<close>



subsection \<open>C6: no allocation is negative\<close>

text \<open>
  Claim C6: for non-negative weights (and the non-negative quantity of a prize) no
  allocated quantity of the result is negative, in either mode; in particular a
  decrementing iteration never takes a share below zero.
\<close>

theorem allocations_nonnegative:
  assumes "nonneg_weights ps" and "0 \<le> quantity pr"
  shows "list_all (\<lambda>(i, n, qty). 0 \<le> qty) (calculate_distribution ps integer_only pr) \<and>
         (nonneg_shares shares \<longrightarrow> nonneg_shares (decrement_step shares))"
proof -
  let ?E = "eligible_set pr ps"
  have "list_all (\<lambda>(i, n, qty). 0 \<le> qty) (calculate_distribution ps integer_only pr)"
  proof (cases "0 < total_weight ?E")
    case False
    with assms(1) show ?thesis by (simp add: calculate_distribution_zero_weight)
  next
    case pos: True
    note el = eligible_positive [OF assms(1) pos]
    show ?thesis
    proof (cases integer_only)
      case True
      let ?S = "integer_shares ?E (total_weight ?E) (quantity pr)"
      have "calculate_distribution ps True pr = as_distribution (sort_key fst (map row ?S))"
        using el pos
        by (simp add: calculate_distribution_integer calculate_integer_distribution_numeric)
      moreover have "nonneg_shares ?S"
        using nonneg_weights_eligible [OF assms(1)] pos assms(2) by (rule nonneg_integer_shares)
      ultimately show ?thesis using True
        by (auto simp: list_all_iff as_distribution_def row_def nonneg_shares_def)
    next
      case False
      have "0 \<le> quantity pr * weight p / total_weight ?E" if "p \<in> set ?E" for p
      proof -
        from that nonneg_weights_eligible [OF assms(1), of pr] have "0 \<le> weight p"
          by (simp add: nonneg_weights_def list_all_iff)
        with assms(2) pos show ?thesis by simp
      qed
      then show ?thesis
        using False real_mode_result [OF assms(1) pos]
        by (auto simp: list_all_iff)
    qed
  qed
  then show ?thesis by (simp add: nonneg_shares_decrement_step)
qed

theorem allocations_nonnegative_witness:
  "nonneg_weights five_ranked \<and> 0 \<le> quantity (mk_prize 7 False 1) \<and>
   nonneg_shares over_assigned \<and>
   list_all (\<lambda>(i, n, qty). 0 \<le> qty) (calculate_distribution five_ranked True (mk_prize 7 False 1)) \<and>
   list_all (\<lambda>(i, n, qty). 0 \<le> qty) (calculate_distribution five_ranked False (mk_prize 7 False 1)) \<and>
   nonneg_shares (decrement_step over_assigned)"
proof -
  have h1: "nonneg_weights five_ranked" by code_simp
  have h2: "0 \<le> quantity (mk_prize 7 False 1)" by code_simp
  have h3: "nonneg_shares over_assigned" by code_simp
  from allocations_nonnegative [OF h1 h2, of True over_assigned]
       allocations_nonnegative [OF h1 h2, of False over_assigned] h1 h2 h3
  show ?thesis by blast
qed

subsection \<open>C7: nothing to distribute\<close>

text \<open>
  Claim C7: when no participant is eligible (enabled, damage not \<^verbatim>\<open>'#'\<close>), or the total
  eligible weight is zero, the result is the empty list in either mode, and no exception
  is raised on the way: the body of the \<^verbatim>\<open>try\<close> block itself returns the empty list.
  The integer computation has the same guard.
\<close>

theorem empty_or_zero_weight_gives_empty_result:
  assumes "active_participants ps = [] \<or> total_weight (active_participants ps) = 0"
  shows "calculate_distribution_body ps integer_only pr = Inr [] \<and>
         calculate_distribution ps integer_only pr = [] \<and>
         calculate_integer_distribution_body [] t q = Inr [] \<and>
         calculate_integer_distribution_body ps' 0 q = Inr []"
  using calculate_distribution_guard [OF assms]
  by (simp add: calculate_distribution_def calculate_integer_distribution_body_def)

theorem empty_or_zero_weight_witness:
  "(active_participants zero_only = [] \<or> total_weight (active_participants zero_only) = 0) \<and>
   (active_participants [] = [] \<or> total_weight (active_participants []) = 0) \<and>
   calculate_distribution_body zero_only True (mk_prize 6 False 1) = Inr [] \<and>
   calculate_distribution zero_only False (mk_prize 6 False 1) = [] \<and>
   calculate_distribution [] True (mk_prize 6 False 1) = []"
proof -
  have h1: "active_participants zero_only = [] \<or> total_weight (active_participants zero_only) = 0"
    by code_simp
  have h2: "active_participants [] = [] \<or> total_weight (active_participants []) = 0"
    by code_simp
  from empty_or_zero_weight_gives_empty_result [OF h1, of True "mk_prize 6 False 1" 0 0 "[]"]
       empty_or_zero_weight_gives_empty_result [OF h1, of False "mk_prize 6 False 1" 0 0 "[]"]
       empty_or_zero_weight_gives_empty_result [OF h2, of True "mk_prize 6 False 1" 0 0 "[]"]
       h1 h2
  show ?thesis by blast
qed

subsection \<open>C8: length and order of the result\<close>

text \<open>
  Claim C8 says that for every input with a non-empty eligible set the result is as long
  as that set. An eligible set of total weight zero is not empty, and its result is: one
  enabled participant of damage 0 gives the empty list.
\<close>

theorem result_length_counterexample:
  "eligible_set (mk_prize 6 False 1) zero_only \<noteq> [] \<and>
   length (calculate_distribution zero_only True (mk_prize 6 False 1)) \<noteq>
     length (eligible_set (mk_prize 6 False 1) zero_only) \<and>
   length (calculate_distribution zero_only False (mk_prize 6 False 1)) \<noteq>
     length (eligible_set (mk_prize 6 False 1) zero_only)"
  by code_simp

text \<open>
  C8 as amended: for non-negative weights and an eligible set (after the special-prize
  restriction) of positive total weight, the result is as long as that set and is sorted
  by ascending participant id, in either mode, while the rows of the integer computation
  are in descending order of weight.
\<close>

theorem result_length_and_id_order:
  assumes "nonneg_weights ps" and "0 < total_weight (eligible_set pr ps)"
  shows "length (calculate_distribution ps integer_only pr) = length (eligible_set pr ps) \<and>
         sorted (map fst (calculate_distribution ps integer_only pr)) \<and>
         sorted_wrt (\<lambda>a b. weight b \<le> weight a)
           (map fst (integer_shares (eligible_set pr ps) (total_weight (eligible_set pr ps))
              (quantity pr)))"
proof -
  have ids: "map fst (calculate_distribution ps integer_only pr) =
             map pid (sort_key pid (eligible_set pr ps))"
    using assms by (rule result_ids)
  have "length (map fst (calculate_distribution ps integer_only pr)) = length (eligible_set pr ps)"
    unfolding ids by simp
  then have len: "length (calculate_distribution ps integer_only pr) = length (eligible_set pr ps)"
    by simp
  have srt: "sorted (map fst (calculate_distribution ps integer_only pr))"
    unfolding ids by simp
  from len srt show ?thesis
    by (simp add: map_fst_integer_shares sorted_desc_pairs)
qed

theorem result_length_and_id_order_witness:
  "nonneg_weights five_ranked \<and>
   0 < total_weight (eligible_set (mk_prize 7 False 1) five_ranked) \<and>
   length (eligible_set (mk_prize 7 False 1) five_ranked) = 5 \<and>
   length (calculate_distribution five_ranked True (mk_prize 7 False 1)) = 5 \<and>
   sorted (map fst (calculate_distribution five_ranked True (mk_prize 7 False 1)))"
proof -
  have h1: "nonneg_weights five_ranked" by code_simp
  have h2: "0 < total_weight (eligible_set (mk_prize 7 False 1) five_ranked)" by code_simp
  have v: "length (eligible_set (mk_prize 7 False 1) five_ranked) = 5" by code_simp
  from result_length_and_id_order [OF h1 h2, of True] v h1 h2
  show ?thesis by simp
qed

subsection \<open>C9: two selections of the winners\<close>

text \<open>
  Claim C9: the winners of a special prize are the first \<open>N\<close> by ascending id in
  \<^verbatim>\<open>calculate_distribution\<close> and the first \<open>N\<close> by descending damage in the recomputation
  of \<^verbatim>\<open>update_current_state\<close>, and the two are not equivalent: for some special prize
  and participants they select different winners. With the damages 1 and 5 and one
  winner, the first path selects id 1 and the second id 2.
\<close>

theorem selection_paths_differ:
  "\<exists>pr ps w. is_special pr \<and>
      update_top_participants pr (active_participants ps) = Inr w \<and>
      set (map pid w) \<noteq> set (map pid (top_participants pr (active_participants ps))) \<and>
      map (fst \<circ> snd) (calculate_distribution ps False pr) = [''Ann''] \<and>
      map_sum id (map_option (map fst)) (update_distributions ps False pr) = Inr (Some [''Bob''])"
proof -
  have ex: "is_special (mk_prize 6 True 1) \<and>
        update_top_participants (mk_prize 6 True 1) (active_participants light_first) =
          Inr [mk_participant 2 ''Bob'' 5] \<and>
        set (map pid [mk_participant 2 ''Bob'' 5]) \<noteq>
          set (map pid (top_participants (mk_prize 6 True 1) (active_participants light_first))) \<and>
        map (fst \<circ> snd) (calculate_distribution light_first False (mk_prize 6 True 1)) = [''Ann''] \<and>
        map_sum id (map_option (map fst)) (update_distributions light_first False (mk_prize 6 True 1)) =
          Inr (Some [''Bob''])"
    by code_simp
  show ?thesis
    apply (rule exI [of _ "mk_prize 6 True 1"])
    apply (rule exI [of _ light_first])
    apply (rule exI [of _ "[mk_participant 2 ''Bob'' 5]"])
    apply (rule ex)
    done
qed

subsection \<open>C10: the inputs are not mutated\<close>

text \<open>
  Claim C10: a call of the distribution computation changes no field of any participant
  and no field of the prize; the integer correction works on rows of its own. Over the
  store: whatever the store, the addresses and the mode, and whether the call returns a
  result or catches an exception, every object that existed before the call is the same
  object afterwards. This covers the participant objects, the prize and the list
  \<^verbatim>\<open>self.participants\<close>; the call only appends the rows it creates. (On a store that
  holds the participants and the prize, the program returns what
  \<^const>\<open>calculate_distribution\<close> returns: theorem \<open>store_level_result\<close>.)
\<close>

theorem distribution_leaves_store_unchanged:
  "(calculate_distribution_st self_participants integer_only prize_ref h = (r, h') \<longrightarrow>
      length h \<le> length h' \<and> take (length h) h' = h \<and> (\<forall>a<length h. h' ! a = h ! a)) \<and>
   (calculate_integer_distribution_st participants total_damage q h = (r2, h2) \<longrightarrow>
      length h \<le> length h2 \<and> take (length h) h2 = h \<and> (\<forall>a<length h. h2 ! a = h ! a))"
proof -
  have same: "\<forall>a<length h. k ! a = h ! a" if "take (length h) k = h" for k :: heap
  proof (intro allI impI)
    fix a
    assume "a < length h"
    then have "take (length h) k ! a = k ! a" by simp
    with that show "k ! a = h ! a" by simp
  qed
  have one: "length h \<le> length h' \<and> take (length h) h' = h \<and> (\<forall>a<length h. h' ! a = h ! a)"
    if run: "calculate_distribution_st self_participants integer_only prize_ref h = (r, h')"
  proof -
    from framesD(1,2) [OF frames_calculate_distribution_st _ run, of "length h"]
    have "length h \<le> length h'" and "take (length h) h' = h" by simp_all
    with same show ?thesis by blast
  qed
  have two: "length h \<le> length h2 \<and> take (length h) h2 = h \<and> (\<forall>a<length h. h2 ! a = h ! a)"
    if run: "calculate_integer_distribution_st participants total_damage q h = (r2, h2)"
  proof -
    from framesD(1,2) [OF frames_calculate_integer_distribution_st _ run, of "length h"]
    have "length h \<le> length h2" and "take (length h) h2 = h" by simp_all
    with same show ?thesis by blast
  qed
  from one two show ?thesis by blast
qed

theorem distribution_leaves_store_unchanged_witness:
  "calculate_distribution_st 0 True 1 (store_of two_equal (mk_prize 5 False 1)) =
     (Inr [(1, ''Ann'', 3), (2, ''Bob'', 2)],
      store_of two_equal (mk_prize 5 False 1) @
        [RowObj [Ref 2, Intg 3, Flt (5 / 2)], RowObj [Ref 3, Intg 2, Flt (5 / 2)]]) \<and>
   calculate_integer_distribution_st [2, 3] 2 5 (store_of two_equal (mk_prize 5 False 1)) =
     (Inr [(1, ''Ann'', 3), (2, ''Bob'', 2)],
      store_of two_equal (mk_prize 5 False 1) @
        [RowObj [Ref 2, Intg 3, Flt (5 / 2)], RowObj [Ref 3, Intg 2, Flt (5 / 2)]]) \<and>
   take (length (store_of two_equal (mk_prize 5 False 1)))
     (store_of two_equal (mk_prize 5 False 1) @
        [RowObj [Ref 2, Intg 3, Flt (5 / 2)], RowObj [Ref 3, Intg 2, Flt (5 / 2)]]) =
     store_of two_equal (mk_prize 5 False 1)"
proof -
  have run1: "calculate_distribution_st 0 True 1 (store_of two_equal (mk_prize 5 False 1)) =
     (Inr [(1, ''Ann'', 3), (2, ''Bob'', 2)],
      store_of two_equal (mk_prize 5 False 1) @
        [RowObj [Ref 2, Intg 3, Flt (5 / 2)], RowObj [Ref 3, Intg 2, Flt (5 / 2)]])"
    by code_simp
  have run2: "calculate_integer_distribution_st [2, 3] 2 5 (store_of two_equal (mk_prize 5 False 1)) =
     (Inr [(1, ''Ann'', 3), (2, ''Bob'', 2)],
      store_of two_equal (mk_prize 5 False 1) @
        [RowObj [Ref 2, Intg 3, Flt (5 / 2)], RowObj [Ref 3, Intg 2, Flt (5 / 2)]])"
    by code_simp
  from distribution_leaves_store_unchanged
    [of 0 True 1 "store_of two_equal (mk_prize 5 False 1)" _ _ "[2, 3]" 2 5] run1 run2
  show ?thesis by blast
qed

end
